theory Spec2Isabelle
  imports Main "HOL-Library.Word"
begin

unbundle bit_operations_syntax

text \<open>
  A shallow embedding of the two cores of the kernel, the buffer cache of bio.c and the
  page allocator of kalloc.c, followed by the properties C1 to C10 of their
  specification. Functions take the state they work on as an argument and return the new
  one; a kernel panic is a result of its own.
\<close>

section \<open>Machine types\<close>

text \<open>\<open>uchar\<close>, \<open>uint\<close> and \<open>uint64\<close>: arithmetic on them wraps around.\<close>

type_synonym u8 = "8 word"
type_synonym u32 = "32 word"
type_synonym u64 = "64 word"

section \<open>Buffer cache (kernel/bio.c, kernel/buf.h)\<close>

subsection \<open>Constants\<close>

text \<open>
  Modelled from the spec: \<open>NBUF\<close> and \<open>BSIZE\<close> come from param.h and fs.h, which are
  not among the sources; the spec gives the reference values 30 and 1024.
  \<open>NBUFMAP_BUCKET\<close> and \<open>BUFMAP_HASH\<close> are the two macros at the top of bio.c.
\<close>

definition NBUF :: nat where
  "NBUF = 30"

definition BSIZE :: nat where
  "BSIZE = 1024"

definition NBUFMAP_BUCKET :: nat where
  "NBUFMAP_BUCKET = 13"

definition BUFMAP_HASH :: "u32 \<Rightarrow> u32 \<Rightarrow> u32" where
  "BUFMAP_HASH d n = (push_bit 27 d OR n) mod of_nat NBUFMAP_BUCKET"

subsection \<open>State\<close>

text \<open>
  \<open>struct buf\<close>. The \<open>next\<close> pointer is not a field here: the chain that hangs off the
  dummy head \<open>bcache.bufmap[i]\<close> is kept as the list of pool indices in \<open>next\<close> order.
  Modelled from the spec: the sleep lock (sleeplock.c is not among the sources) is the
  process id of its holder, if any.
\<close>

record buf =
  valid :: int
  disk :: int
  dev :: u32
  blockno :: u32
  lock :: "nat option"
  refcnt :: u32
  lastuse :: u32
  data :: "u8 list"

text \<open>
  The part of the kernel state that bio.c reads and writes: the pool \<open>bcache.buf\<close>, the
  bucket chains \<open>bcache.bufmap\<close>, the global tick counter, and the disk behind
  \<open>virtio_disk_rw\<close> (its blocks and the trace of requests it has served).
  Spin locks are not part of the state: every function below is one sequence of
  critical sections executed without interference.
\<close>

record kernel =
  buf :: "buf list"
  bufmap :: "nat list list"
  ticks :: u32
  vdisk :: "u32 \<times> u32 \<Rightarrow> u8 list"
  vlog :: "(bool \<times> u32 \<times> u32) list"

text \<open>
  How a call into the cache ends: with a kernel panic and its message, suspended in
  \<open>acquiresleep\<close> on a held sleep lock (with the state at that moment and the buffer it
  waits for), or returning a buffer.
\<close>

datatype 'a outcome = Panic string | Sleeps 'a | Returns 'a

text \<open>Static storage before \<open>binit\<close>: all fields zero, on top of a given disk image.\<close>

definition bss :: "(u32 \<times> u32 \<Rightarrow> u8 list) \<Rightarrow> kernel" where
  "bss img =
     \<lparr>buf = replicate NBUF
        \<lparr>valid = 0, disk = 0, dev = 0, blockno = 0, lock = None, refcnt = 0, lastuse = 0,
         data = replicate BSIZE 0\<rparr>,
      bufmap = replicate NBUFMAP_BUCKET [],
      ticks = 0, vdisk = img, vlog = []\<rparr>"

subsection \<open>Sleep lock and disk driver\<close>

text \<open>
  Modelled from the spec: \<open>acquiresleep\<close>, \<open>releasesleep\<close> and \<open>holdingsleep\<close>
  (sleeplock.c). A sleep lock has at most one holder; acquiring a held lock suspends the
  caller, which is the outcome \<open>Sleeps\<close>.
\<close>

definition holdingsleep :: "nat \<Rightarrow> nat \<Rightarrow> kernel \<Rightarrow> bool" where
  "holdingsleep p b s = (lock (buf s ! b) = Some p)"

definition acquiresleep :: "nat \<Rightarrow> nat \<Rightarrow> kernel \<Rightarrow> (kernel \<times> nat) outcome" where
  "acquiresleep p b s =
     (if lock (buf s ! b) = None
      then Returns (s\<lparr>buf := (buf s)[b := (buf s ! b)\<lparr>lock := Some p\<rparr>]\<rparr>, b)
      else Sleeps (s, b))"

definition releasesleep :: "nat \<Rightarrow> kernel \<Rightarrow> kernel" where
  "releasesleep b s = s\<lparr>buf := (buf s)[b := (buf s ! b)\<lparr>lock := None\<rparr>]\<rparr>"

text \<open>
  Modelled from the spec: \<open>virtio_disk_rw(b, write)\<close> is synchronous block I/O. A read
  copies the block named by the buffer's fingerprint into \<open>data\<close>, a write copies
  \<open>data\<close> to the block; either way the request is appended to the trace.
\<close>

definition virtio_disk_rw :: "nat \<Rightarrow> bool \<Rightarrow> kernel \<Rightarrow> kernel" where
  "virtio_disk_rw b write s =
     (let d = dev (buf s ! b); n = blockno (buf s ! b) in
      if write
      then s\<lparr>vdisk := (vdisk s)((d, n) := data (buf s ! b)), vlog := vlog s @ [(True, d, n)]\<rparr>
      else s\<lparr>buf := (buf s)[b := (buf s ! b)\<lparr>data := vdisk s (d, n)\<rparr>],
             vlog := vlog s @ [(False, d, n)]\<rparr>)"

subsection \<open>binit\<close>

definition binit_bucket :: "nat \<Rightarrow> kernel \<Rightarrow> kernel" where
  "binit_bucket i s = s\<lparr>bufmap := (bufmap s)[i := []]\<rparr>"

definition binit_buf :: "nat \<Rightarrow> kernel \<Rightarrow> kernel" where
  "binit_buf i s =
     s\<lparr>buf := (buf s)[i := (buf s ! i)\<lparr>lock := None, lastuse := 0, refcnt := 0\<rparr>],
       bufmap := (bufmap s)[0 := i # bufmap s ! 0]\<rparr>"

definition binit :: "kernel \<Rightarrow> kernel" where
  "binit s = fold binit_buf [0..<NBUF] (fold binit_bucket [0..<NBUFMAP_BUCKET] s)"

subsection \<open>bget\<close>

text \<open>The lookup loop over one chain (lines 74-82, and again 91-100).\<close>

fun bscan :: "buf list \<Rightarrow> nat list \<Rightarrow> u32 \<Rightarrow> u32 \<Rightarrow> nat option" where
  "bscan bs [] d n = None"
| "bscan bs (b # chain) d n =
     (if dev (bs ! b) = d \<and> blockno (bs ! b) = n then Some b else bscan bs chain d n)"

definition refcnt_inc :: "nat \<Rightarrow> kernel \<Rightarrow> kernel" where
  "refcnt_inc b s = s\<lparr>buf := (buf s)[b := (buf s ! b)\<lparr>refcnt := refcnt (buf s ! b) + 1\<rparr>]\<rparr>"

definition refcnt_dec :: "nat \<Rightarrow> kernel \<Rightarrow> kernel" where
  "refcnt_dec b s = s\<lparr>buf := (buf s)[b := (buf s ! b)\<lparr>refcnt := refcnt (buf s ! b) - 1\<rparr>]\<rparr>"

text \<open>
  The victim scan (lines 104-129). \<open>brefore_least\<close> points at the node in front of the
  candidate: here the pair of the bucket index and the position of that node in the
  bucket's chain (position 0 is the dummy head), so the candidate is the chain's element
  at that position. The inner loop runs over the rest of chain \<open>i\<close> from position \<open>p\<close>.
\<close>

type_synonym brefore = "(nat \<times> nat) option"

fun scan_chain ::
  "buf list \<Rightarrow> nat list list \<Rightarrow> nat \<Rightarrow> nat \<Rightarrow> nat list \<Rightarrow> brefore \<times> bool \<Rightarrow> brefore \<times> bool" where
  "scan_chain bs bm i p [] acc = acc"
| "scan_chain bs bm i p (c # rest) (brefore_least, newfound) =
     scan_chain bs bm i (Suc p) rest
       (if refcnt (bs ! c) = 0 \<and>
           (case brefore_least of
              None \<Rightarrow> True
            | Some (j, q) \<Rightarrow> lastuse (bs ! c) < lastuse (bs ! (bm ! j ! q)))
        then (Some (i, p), True)
        else (brefore_least, newfound))"

function scan_buckets ::
  "buf list \<Rightarrow> nat list list \<Rightarrow> nat \<Rightarrow> brefore \<times> u32 \<Rightarrow> brefore \<times> u32" where
  "scan_buckets bs bm i (brefore_least, holding_bucket) =
     (if i < NBUFMAP_BUCKET
      then (case scan_chain bs bm i 0 (bm ! i) (brefore_least, False) of
              (brefore_least', newfound) \<Rightarrow>
                scan_buckets bs bm (Suc i)
                  (brefore_least', if newfound then of_nat i else holding_bucket))
      else (brefore_least, holding_bucket))"
  by pat_completeness auto
termination
  by (relation "measure (\<lambda>(bs, bm, i, acc). NBUFMAP_BUCKET - i)") auto

text \<open>Lines 86-158: the path taken after the first lookup has missed.\<close>

definition bget_slow :: "nat \<Rightarrow> kernel \<Rightarrow> u32 \<Rightarrow> u32 \<Rightarrow> (kernel \<times> nat) outcome" where
  "bget_slow p s d n =
     (let key = BUFMAP_HASH d n in
      case bscan (buf s) (bufmap s ! unat key) d n of
        Some b \<Rightarrow> acquiresleep p b (refcnt_inc b s)
      | None \<Rightarrow>
          (case scan_buckets (buf s) (bufmap s) 0 (None, - 1) of
             (None, holding_bucket) \<Rightarrow> Panic ''bget: no buffers''
           | (Some (i, q), holding_bucket) \<Rightarrow>
               let b = bufmap s ! i ! q;
                   bm = (if holding_bucket \<noteq> key
                         then let bm1 = (bufmap s)[i := take q (bufmap s ! i) @
                                                        drop (Suc q) (bufmap s ! i)]
                              in bm1[unat key := b # bm1 ! unat key]
                         else bufmap s);
                   s' = s\<lparr>buf := (buf s)[b := (buf s ! b)
                                   \<lparr>dev := d, blockno := n, refcnt := 1, valid := 0\<rparr>],
                          bufmap := bm\<rparr>
               in acquiresleep p b s'))"

definition bget :: "nat \<Rightarrow> kernel \<Rightarrow> u32 \<Rightarrow> u32 \<Rightarrow> (kernel \<times> nat) outcome" where
  "bget p s d n =
     (case bscan (buf s) (bufmap s ! unat (BUFMAP_HASH d n)) d n of
        Some b \<Rightarrow> acquiresleep p b (refcnt_inc b s)
      | None \<Rightarrow> bget_slow p s d n)"

subsection \<open>bread, bwrite, brelse, bpin, bunpin\<close>

definition bread_fill :: "nat \<Rightarrow> kernel \<Rightarrow> kernel" where
  "bread_fill b s =
     (if valid (buf s ! b) = 0
      then let s1 = virtio_disk_rw b False s
           in s1\<lparr>buf := (buf s1)[b := (buf s1 ! b)\<lparr>valid := 1\<rparr>]\<rparr>
      else s)"

definition bread :: "nat \<Rightarrow> kernel \<Rightarrow> u32 \<Rightarrow> u32 \<Rightarrow> (kernel \<times> nat) outcome" where
  "bread p s d n =
     (case bget p s d n of
        Returns (s', b) \<Rightarrow> Returns (bread_fill b s', b)
      | Sleeps x \<Rightarrow> Sleeps x
      | Panic e \<Rightarrow> Panic e)"

definition bwrite :: "nat \<Rightarrow> nat \<Rightarrow> kernel \<Rightarrow> string + kernel" where
  "bwrite p b s =
     (if \<not> holdingsleep p b s then Inl ''bwrite'' else Inr (virtio_disk_rw b True s))"

definition brelse :: "nat \<Rightarrow> nat \<Rightarrow> kernel \<Rightarrow> string + kernel" where
  "brelse p b s =
     (if \<not> holdingsleep p b s then Inl ''brelse''
      else let s1 = refcnt_dec b (releasesleep b s)
           in Inr (if refcnt (buf s1 ! b) = 0
                   then s1\<lparr>buf := (buf s1)[b := (buf s1 ! b)\<lparr>lastuse := ticks s1\<rparr>]\<rparr>
                   else s1))"

definition bpin :: "nat \<Rightarrow> kernel \<Rightarrow> kernel" where
  "bpin b s = refcnt_inc b s"

definition bunpin :: "nat \<Rightarrow> kernel \<Rightarrow> kernel" where
  "bunpin b s = refcnt_dec b s"

section \<open>Physical page allocator (kernel/kalloc.c)\<close>

text \<open>
  \<open>kmem[i].freelist\<close> is kept as the list of page addresses in \<open>next\<close> order; the number
  of CPUs is the length of \<open>kmem\<close>. Physical memory is a byte store, so that the junk
  fills and the \<open>next\<close> field written into the first eight bytes of a free page are
  visible. The kernel end \<open>end\<close>, \<open>PHYSTOP\<close> and the result of \<open>cpuid()\<close> are parameters.
\<close>

record allocator =
  kmem :: "u64 list list"
  mem :: "u64 \<Rightarrow> u8"

text \<open>
  Modelled from the spec: \<open>PGSIZE\<close> comes from riscv.h, which is not among the sources;
  the spec gives the page size 4096.
\<close>

definition PGSIZE :: u64 where
  "PGSIZE = 4096"

definition memset :: "u64 \<Rightarrow> u8 \<Rightarrow> u64 \<Rightarrow> (u64 \<Rightarrow> u8) \<Rightarrow> (u64 \<Rightarrow> u8)" where
  "memset dst c n m = (\<lambda>a. if a - dst < n then c else m a)"

text \<open>The head pointer of a list: null when it is empty.\<close>

definition freelist :: "u64 list \<Rightarrow> u64" where
  "freelist l = (case l of [] \<Rightarrow> 0 | r # _ \<Rightarrow> r)"

text \<open>\<open>r->next = v\<close>: a little-endian 64-bit store at address \<open>r\<close>.\<close>

definition set_next :: "u64 \<Rightarrow> u64 \<Rightarrow> (u64 \<Rightarrow> u8) \<Rightarrow> (u64 \<Rightarrow> u8)" where
  "set_next r v m = (\<lambda>a. if a - r < 8 then ucast (drop_bit (8 * unat (a - r)) v) else m a)"

definition kfree :: "u64 \<Rightarrow> u64 \<Rightarrow> nat \<Rightarrow> u64 \<Rightarrow> allocator \<Rightarrow> string + allocator" where
  "kfree kend PHYSTOP cpu pa s =
     (if pa mod PGSIZE \<noteq> 0 \<or> pa < kend \<or> pa \<ge> PHYSTOP then Inl ''kfree''
      else Inr (s\<lparr>mem := set_next pa (freelist (kmem s ! cpu)) (memset pa 1 PGSIZE (mem s)),
                 kmem := (kmem s)[cpu := pa # kmem s ! cpu]\<rparr>))"

text \<open>The inner while loop of the steal (lines 93-103), on one victim list.\<close>

fun steal_pages ::
  "u64 list \<Rightarrow> u64 list \<Rightarrow> int \<Rightarrow> (u64 \<Rightarrow> u8) \<Rightarrow> u64 list \<times> u64 list \<times> int \<times> (u64 \<Rightarrow> u8)" where
  "steal_pages [] local steal_page_nums m = ([], local, steal_page_nums, m)"
| "steal_pages (r # rest) local steal_page_nums m =
     (if steal_page_nums > 0
      then steal_pages rest (r # local) (steal_page_nums - 1) (set_next r (freelist local) m)
      else (r # rest, local, steal_page_nums, m))"

text \<open>The for loop over the CPUs (lines 85-109), from index \<open>i\<close> on.\<close>

function kalloc_steal :: "nat \<Rightarrow> nat \<Rightarrow> int \<Rightarrow> allocator \<Rightarrow> allocator" where
  "kalloc_steal cpu i steal_page_nums s =
     (if i < length (kmem s)
      then if i = cpu then kalloc_steal cpu (Suc i) steal_page_nums s
           else (case steal_pages (kmem s ! i) (kmem s ! cpu) steal_page_nums (mem s) of
                   (other, local, steal_page_nums', m') \<Rightarrow>
                     if steal_page_nums' \<le> 0
                     then s\<lparr>kmem := (kmem s)[i := other, cpu := local], mem := m'\<rparr>
                     else kalloc_steal cpu (Suc i) steal_page_nums'
                            (s\<lparr>kmem := (kmem s)[i := other, cpu := local], mem := m'\<rparr>))
      else s)"
  by pat_completeness auto
termination
  by (relation "measure (\<lambda>(cpu, i, n, s). length (kmem s) - i)") auto

definition kalloc :: "nat \<Rightarrow> allocator \<Rightarrow> allocator \<times> u64 option" where
  "kalloc cpu s =
     (let s1 = (if kmem s ! cpu = [] then kalloc_steal cpu 0 64 s else s) in
      case kmem s1 ! cpu of
        [] \<Rightarrow> (s1, None)
      | r # rest \<Rightarrow>
          (s1\<lparr>kmem := (kmem s1)[cpu := rest], mem := memset r 5 PGSIZE (mem s1)\<rparr>, Some r))"

section \<open>Specification-level functions and invariants\<close>

subsection \<open>Buffer cache\<close>

text \<open>
  The victim scan spelled out on buffers instead of predecessor pointers: over a sequence
  of candidates, keep the current choice unless the next idle buffer has a strictly
  smaller \<open>lastuse\<close>. \<open>cand\<close> reads the buffer behind a predecessor pointer, and \<open>held\<close>
  says that \<open>holding_bucket\<close> is the bucket of the current choice. \<open>victim\<close> is the choice
  over all chains, bucket 0 first; \<open>install\<close> is what lines 136-153 do to the state with
  the victim at position \<open>q\<close> of chain \<open>i\<close>.
\<close>

fun pick :: "buf list \<Rightarrow> nat option \<Rightarrow> nat list \<Rightarrow> nat option" where
  "pick bs c [] = c"
| "pick bs c (x # xs) =
     pick bs (if refcnt (bs ! x) = 0 \<and> (case c of None \<Rightarrow> True | Some y \<Rightarrow> lastuse (bs ! x) < lastuse (bs ! y))
              then Some x else c) xs"

definition cand :: "nat list list \<Rightarrow> brefore \<Rightarrow> nat option" where
  "cand bm l = map_option (\<lambda>(j, q). bm ! j ! q) l"

definition held :: "nat list list \<Rightarrow> brefore \<Rightarrow> u32 \<Rightarrow> bool" where
  "held bm l h = (case l of None \<Rightarrow> True
                  | Some (j, q) \<Rightarrow> j < NBUFMAP_BUCKET \<and> q < length (bm ! j) \<and> h = of_nat j)"

definition victim :: "kernel \<Rightarrow> nat option" where
  "victim s = pick (buf s) None (concat (bufmap s))"

definition install :: "nat \<Rightarrow> nat \<Rightarrow> u32 \<Rightarrow> u32 \<Rightarrow> kernel \<Rightarrow> kernel" where
  "install i q d n s =
     (let b = bufmap s ! i ! q; key = unat (BUFMAP_HASH d n) in
      s\<lparr>buf := (buf s)[b := (buf s ! b)\<lparr>dev := d, blockno := n, refcnt := 1, valid := 0\<rparr>],
        bufmap := (if i = key then bufmap s
                   else ((bufmap s)[i := take q (bufmap s ! i) @ drop (Suc q) (bufmap s ! i)])
                          [key := b # bufmap s ! key])\<rparr>)"

text \<open>
  Well-formed chains: there are \<open>NBUFMAP_BUCKET\<close> of them, they hold pool indices only,
  and every pool buffer is linked into some chain.
\<close>

definition wf_bcache :: "kernel \<Rightarrow> bool" where
  "wf_bcache s \<longleftrightarrow>
     length (bufmap s) = NBUFMAP_BUCKET \<and>
     (\<forall>i<NBUFMAP_BUCKET. \<forall>b\<in>set (bufmap s ! i). b < length (buf s)) \<and>
     (\<forall>b<length (buf s). \<exists>i<NBUFMAP_BUCKET. b \<in> set (bufmap s ! i))"

fun outcome_buf :: "(kernel \<times> nat) outcome \<Rightarrow> nat option" where
  "outcome_buf (Panic e) = None"
| "outcome_buf (Sleeps (s, b)) = Some b"
| "outcome_buf (Returns (s, b)) = Some b"

fun outcome_state :: "(kernel \<times> nat) outcome \<Rightarrow> kernel option" where
  "outcome_state (Panic e) = None"
| "outcome_state (Sleeps (s, b)) = Some s"
| "outcome_state (Returns (s, b)) = Some s"

text \<open>A disk whose blocks are all zero, and the state after the first read of block 7 of device 1.\<close>

definition blank :: "u32 \<times> u32 \<Rightarrow> u8 list" where
  "blank = (\<lambda>_. replicate BSIZE 0)"

definition cold :: "nat \<Rightarrow> (u32 \<times> u32 \<Rightarrow> u8 list) \<Rightarrow> kernel" where
  "cold p img =
     \<lparr>buf = (replicate NBUF
        \<lparr>valid = 0, disk = 0, dev = 0, blockno = 0, lock = None, refcnt = 0, lastuse = 0,
         data = replicate BSIZE 0\<rparr>)
        [NBUF - 1 := \<lparr>valid = 1, disk = 0, dev = 1, blockno = 7, lock = Some p, refcnt = 1,
                      lastuse = 0, data = img (1, 7)\<rparr>],
      bufmap = (rev [0..<NBUF - 1] # replicate (NBUFMAP_BUCKET - 1) [])[2 := [NBUF - 1]],
      ticks = 0, vdisk = img, vlog = [(False, 1, 7)]\<rparr>"

text \<open>
  A pool in which every buffer is referenced.
\<close>

definition exhausted :: kernel where
  "exhausted =
     \<lparr>buf = replicate NBUF
        \<lparr>valid = 1, disk = 0, dev = 0, blockno = 0, lock = None, refcnt = 1, lastuse = 0,
         data = replicate BSIZE 0\<rparr>,
      bufmap = rev [0..<NBUF] # replicate (NBUFMAP_BUCKET - 1) [],
      ticks = 0, vdisk = blank, vlog = []\<rparr>"

text \<open>
  The invariant behind "one buffer per block": every buffer of the set \<open>H\<close> is the one
  that the lookup loop finds for its own fingerprint.
\<close>

definition findable :: "kernel \<Rightarrow> nat set \<Rightarrow> bool" where
  "findable s H \<longleftrightarrow>
     (\<forall>b\<in>H. b < length (buf s) \<and>
        bscan (buf s) (bufmap s ! unat (BUFMAP_HASH (dev (buf s ! b)) (blockno (buf s ! b))))
              (dev (buf s ! b)) (blockno (buf s ! b)) = Some b)"

text \<open>
  The states of the cache reachable from \<open>binit\<close>, together with the set of buffers that
  have been handed out by \<open>bget\<close> so far. The steps are the functions of bio.c, each a
  sequence of spin-lock critical sections taken as a whole; the part of \<open>bget\<close> under
  \<open>eviction_lock\<close> is also a step by itself, as is the rest of \<open>bread\<close> run by a process
  that slept on the buffer's lock. The holder of a buffer may also store new contents
  into \<open>data\<close> and write them out with \<open>bwrite\<close>, which is one step here: contents
  changed and not written are not part of these states. Callers pass to \<open>bwrite\<close>,
  \<open>brelse\<close>, \<open>bpin\<close> and \<open>bunpin\<close> only pointers that \<open>bread\<close> gave out at some time: no
  other file can name a buffer of the pool.
\<close>

inductive reachable :: "(u32 \<times> u32 \<Rightarrow> u8 list) \<Rightarrow> kernel \<Rightarrow> nat set \<Rightarrow> bool" for img where
  r_binit: "reachable img (binit (bss img)) {}"
| r_ticks: "reachable img s H \<Longrightarrow> reachable img (s\<lparr>ticks := ticks s + 1\<rparr>) H"
| r_bget: "reachable img s H \<Longrightarrow> outcome_state (bget p s d n) = Some s' \<Longrightarrow>
           outcome_buf (bget p s d n) = Some b \<Longrightarrow> reachable img s' (insert b H)"
| r_bget_slow: "reachable img s H \<Longrightarrow> outcome_state (bget_slow p s d n) = Some s' \<Longrightarrow>
           outcome_buf (bget_slow p s d n) = Some b \<Longrightarrow> reachable img s' (insert b H)"
| r_bread: "reachable img s H \<Longrightarrow> outcome_state (bread p s d n) = Some s' \<Longrightarrow>
           outcome_buf (bread p s d n) = Some b \<Longrightarrow> reachable img s' (insert b H)"
| r_wakeup: "reachable img s H \<Longrightarrow> b \<in> H \<Longrightarrow> acquiresleep p b s = Returns (s', b) \<Longrightarrow>
             reachable img (bread_fill b s') H"
| r_bwrite: "reachable img s H \<Longrightarrow> b \<in> H \<Longrightarrow> bwrite p b s = Inr s' \<Longrightarrow> reachable img s' H"
| r_store: "reachable img s H \<Longrightarrow> b \<in> H \<Longrightarrow>
            bwrite p b (s\<lparr>buf := (buf s)[b := (buf s ! b)\<lparr>data := x\<rparr>]\<rparr>) = Inr s' \<Longrightarrow>
            reachable img s' H"
| r_brelse: "reachable img s H \<Longrightarrow> b \<in> H \<Longrightarrow> brelse p b s = Inr s' \<Longrightarrow> reachable img s' H"
| r_bpin: "reachable img s H \<Longrightarrow> b \<in> H \<Longrightarrow> reachable img (bpin b s) H"
| r_bunpin: "reachable img s H \<Longrightarrow> b \<in> H \<Longrightarrow> reachable img (bunpin b s) H"

text \<open>
  Chains well formed, handed-out buffers findable, and only handed-out buffers referenced.
\<close>

definition bc_inv :: "kernel \<Rightarrow> nat set \<Rightarrow> bool" where
  "bc_inv s H \<longleftrightarrow>
     wf_bcache s \<and> findable s H \<and> (\<forall>b<length (buf s). refcnt (buf s ! b) \<noteq> 0 \<longrightarrow> b \<in> H)"

text \<open>
  A store into the \<open>data\<close> of buffer \<open>b\<close> by the process that holds it: \<open>struct buf\<close>
  (buf.h) exposes \<open>data\<close>, and the callers of \<open>bread\<close> change it in place. Nothing is
  written to the disk.
\<close>

definition poke :: "nat \<Rightarrow> u8 list \<Rightarrow> kernel \<Rightarrow> kernel" where
  "poke b x s = s\<lparr>buf := (buf s)[b := (buf s ! b)\<lparr>data := x\<rparr>]\<rparr>"

text \<open>
  Runs of the cache from a state \<open>s0\<close> in which the buffers \<open>H0\<close> have been handed out.
  The steps are those of \<open>reachable\<close>, and one more: the holder of a buffer may store
  into its \<open>data\<close> and not write it out (\<open>t_poke\<close>). Two sets restrict a run. \<open>W\<close> holds
  the buffers whose holders write through: they change \<open>data\<close> only by a store that
  \<open>bwrite\<close> follows at once (\<open>t_store\<close>), never by \<open>t_poke\<close>. \<open>P\<close> holds the buffers that
  are not evicted during the run: a call of \<open>bget\<close>, \<open>bread\<close> or the locked part of \<open>bget\<close>
  that misses does not take its victim from \<open>P\<close>. With \<open>W\<close> and \<open>P\<close> empty every run is
  allowed.
\<close>

inductive trace :: "nat set \<Rightarrow> nat set \<Rightarrow> kernel \<Rightarrow> nat set \<Rightarrow> kernel \<Rightarrow> nat set \<Rightarrow> bool"
  for W P s0 H0 where
  t_start: "trace W P s0 H0 s0 H0"
| t_ticks: "trace W P s0 H0 s H \<Longrightarrow> trace W P s0 H0 (s\<lparr>ticks := ticks s + 1\<rparr>) H"
| t_bget: "trace W P s0 H0 s H \<Longrightarrow> outcome_state (bget p s d n) = Some s' \<Longrightarrow>
           outcome_buf (bget p s d n) = Some b \<Longrightarrow>
           bscan (buf s) (bufmap s ! unat (BUFMAP_HASH d n)) d n \<noteq> None \<or> b \<notin> P \<Longrightarrow>
           trace W P s0 H0 s' (insert b H)"
| t_bget_slow: "trace W P s0 H0 s H \<Longrightarrow> outcome_state (bget_slow p s d n) = Some s' \<Longrightarrow>
           outcome_buf (bget_slow p s d n) = Some b \<Longrightarrow>
           bscan (buf s) (bufmap s ! unat (BUFMAP_HASH d n)) d n \<noteq> None \<or> b \<notin> P \<Longrightarrow>
           trace W P s0 H0 s' (insert b H)"
| t_bread: "trace W P s0 H0 s H \<Longrightarrow> outcome_state (bread p s d n) = Some s' \<Longrightarrow>
           outcome_buf (bread p s d n) = Some b \<Longrightarrow>
           bscan (buf s) (bufmap s ! unat (BUFMAP_HASH d n)) d n \<noteq> None \<or> b \<notin> P \<Longrightarrow>
           trace W P s0 H0 s' (insert b H)"
| t_wakeup: "trace W P s0 H0 s H \<Longrightarrow> b \<in> H \<Longrightarrow> acquiresleep p b s = Returns (s', b) \<Longrightarrow>
             trace W P s0 H0 (bread_fill b s') H"
| t_bwrite: "trace W P s0 H0 s H \<Longrightarrow> b \<in> H \<Longrightarrow> bwrite p b s = Inr s' \<Longrightarrow> trace W P s0 H0 s' H"
| t_store: "trace W P s0 H0 s H \<Longrightarrow> b \<in> H \<Longrightarrow> bwrite p b (poke b x s) = Inr s' \<Longrightarrow>
            trace W P s0 H0 s' H"
| t_poke: "trace W P s0 H0 s H \<Longrightarrow> b \<in> H \<Longrightarrow> b \<notin> W \<Longrightarrow> holdingsleep p b s \<Longrightarrow>
            trace W P s0 H0 (poke b x s) H"
| t_brelse: "trace W P s0 H0 s H \<Longrightarrow> b \<in> H \<Longrightarrow> brelse p b s = Inr s' \<Longrightarrow> trace W P s0 H0 s' H"
| t_bpin: "trace W P s0 H0 s H \<Longrightarrow> b \<in> H \<Longrightarrow> trace W P s0 H0 (bpin b s) H"
| t_bunpin: "trace W P s0 H0 s H \<Longrightarrow> b \<in> H \<Longrightarrow> trace W P s0 H0 (bunpin b s) H"

text \<open>
  Only handed-out buffers are valid, and a valid buffer whose holders write through
  holds what the disk holds for its block.
\<close>

definition cw :: "kernel \<Rightarrow> nat set \<Rightarrow> nat set \<Rightarrow> bool" where
  "cw s H W \<longleftrightarrow>
     (\<forall>b<length (buf s). valid (buf s ! b) \<noteq> 0 \<longrightarrow>
        b \<in> H \<and>
        (b \<in> W \<longrightarrow> data (buf s ! b) = vdisk s (dev (buf s ! b), blockno (buf s ! b))))"

text \<open>
  Block \<open>(d, n)\<close> is resident in buffer \<open>b\<close>: the lookup loop finds \<open>b\<close> for it and \<open>b\<close> is
  valid.
\<close>

definition resident :: "kernel \<Rightarrow> nat \<Rightarrow> u32 \<Rightarrow> u32 \<Rightarrow> bool" where
  "resident s b d n \<longleftrightarrow>
     b < length (buf s) \<and>
     bscan (buf s) (bufmap s ! unat (BUFMAP_HASH d n)) d n = Some b \<and>
     valid (buf s ! b) \<noteq> 0"

text \<open>
  Contents that differ from every block of the blank disk, and the state in which the
  first reader of block 7 of device 1 on a blank disk has stored them into the buffer
  and released it without \<open>bwrite\<close>.
\<close>

definition scribble :: "u8 list" where
  "scribble = replicate BSIZE 0xFF"

definition dirty :: kernel where
  "dirty =
     \<lparr>buf = (replicate NBUF
        \<lparr>valid = 0, disk = 0, dev = 0, blockno = 0, lock = None, refcnt = 0, lastuse = 0,
         data = replicate BSIZE 0\<rparr>)
        [NBUF - 1 := \<lparr>valid = 1, disk = 0, dev = 1, blockno = 7, lock = None, refcnt = 0,
                      lastuse = 0, data = scribble\<rparr>],
      bufmap = (rev [0..<NBUF - 1] # replicate (NBUFMAP_BUCKET - 1) [])[2 := [NBUF - 1]],
      ticks = 0, vdisk = blank, vlog = [(False, 1, 7)]\<rparr>"

subsection \<open>Page allocator\<close>

text \<open>
  A two-CPU allocator with empty free lists, every byte of memory holding \<open>0x58\<close>.
\<close>

definition used2 :: allocator where
  "used2 = \<lparr>kmem = [] # [] # [], mem = (\<lambda>a. 0x58)\<rparr>"

text \<open>
  The steal loop as a relation on the free lists alone: from victim index \<open>i\<close> on, with
  \<open>n\<close> pages still wanted, each victim other than \<open>cpu\<close> gives up a prefix of \<open>k\<close> pages,
  which land reversed on the front of the local list; the loop stops once no page is
  wanted any more.
\<close>

inductive steals :: "nat \<Rightarrow> nat \<Rightarrow> int \<Rightarrow> u64 list list \<Rightarrow> u64 list list \<Rightarrow> bool" for cpu where
  finished: "\<not> i < length km \<Longrightarrow> steals cpu i n km km"
| skip: "i < length km \<Longrightarrow> i = cpu \<Longrightarrow> steals cpu (Suc i) n km km' \<Longrightarrow> steals cpu i n km km'"
| stop: "i < length km \<Longrightarrow> i \<noteq> cpu \<Longrightarrow> k \<le> length (km ! i) \<Longrightarrow> k = 0 \<or> int k \<le> n \<Longrightarrow>
         n - int k \<le> 0 \<Longrightarrow>
         steals cpu i n km (km[i := drop k (km ! i), cpu := rev (take k (km ! i)) @ km ! cpu])"
| continue: "i < length km \<Longrightarrow> i \<noteq> cpu \<Longrightarrow> k \<le> length (km ! i) \<Longrightarrow> k = 0 \<or> int k \<le> n \<Longrightarrow>
         drop k (km ! i) = [] \<Longrightarrow> \<not> n - int k \<le> 0 \<Longrightarrow>
         steals cpu (Suc i) (n - int k)
           (km[i := drop k (km ! i), cpu := rev (take k (km ! i)) @ km ! cpu]) km' \<Longrightarrow>
         steals cpu i n km km'"

text \<open>
  A run of page addresses, and a two-CPU allocator whose CPU 0 has run dry while CPU 1
  holds 1000 free pages.
\<close>

definition pages :: "nat \<Rightarrow> u64 list" where
  "pages k = map (\<lambda>i. 0x80100000 + 4096 * of_nat i) [0..<k]"

definition drained :: allocator where
  "drained = \<lparr>kmem = [] # pages 1000 # [], mem = (\<lambda>a. 1)\<rparr>"

text \<open>
  The states after \<open>bread(0, 0)\<close> on a blank disk, and after the release that follows.
\<close>

definition held00 :: kernel where
  "held00 =
     \<lparr>buf = (replicate NBUF
        \<lparr>valid = 0, disk = 0, dev = 0, blockno = 0, lock = None, refcnt = 0, lastuse = 0,
         data = replicate BSIZE 0\<rparr>)
        [NBUF - 1 := \<lparr>valid = 1, disk = 0, dev = 0, blockno = 0, lock = Some 1, refcnt = 1,
                      lastuse = 0, data = blank (0, 0)\<rparr>],
      bufmap = rev [0..<NBUF] # replicate (NBUFMAP_BUCKET - 1) [],
      ticks = 0, vdisk = blank, vlog = [(False, 0, 0)]\<rparr>"

definition idle00 :: kernel where
  "idle00 =
     \<lparr>buf = (replicate NBUF
        \<lparr>valid = 0, disk = 0, dev = 0, blockno = 0, lock = None, refcnt = 0, lastuse = 0,
         data = replicate BSIZE 0\<rparr>)
        [NBUF - 1 := \<lparr>valid = 1, disk = 0, dev = 0, blockno = 0, lock = None, refcnt = 0,
                      lastuse = 0, data = blank (0, 0)\<rparr>],
      bufmap = rev [0..<NBUF] # replicate (NBUFMAP_BUCKET - 1) [],
      ticks = 0, vdisk = blank, vlog = [(False, 0, 0)]\<rparr>"

section \<open>Properties of the buffer cache: the victim scan\<close>

lemma pick_append: "pick bs c (xs @ ys) = pick bs (pick bs c xs) ys"
  by (induction xs arbitrary: c) auto

lemma pick_None: "pick bs c xs = None \<longleftrightarrow> c = None \<and> (\<forall>x\<in>set xs. refcnt (bs ! x) \<noteq> 0)"
  by (induction xs arbitrary: c) auto

lemma pick_Some_mem: "pick bs c xs = Some v \<Longrightarrow> c = Some v \<or> (v \<in> set xs \<and> refcnt (bs ! v) = 0)"
  by (induction xs arbitrary: c) (auto split: if_splits)

lemma pick_first:
  "pick bs c xs = Some v \<Longrightarrow>
     (c = Some v \<and> (\<forall>x\<in>set xs. refcnt (bs ! x) = 0 \<longrightarrow> lastuse (bs ! v) \<le> lastuse (bs ! x))) \<or>
     (\<exists>k<length xs. xs ! k = v \<and> refcnt (bs ! v) = 0 \<and>
        (\<forall>y. c = Some y \<longrightarrow> lastuse (bs ! v) < lastuse (bs ! y)) \<and>
        (\<forall>j<k. refcnt (bs ! (xs ! j)) = 0 \<longrightarrow> lastuse (bs ! v) < lastuse (bs ! (xs ! j))) \<and>
        (\<forall>j<length xs. k < j \<longrightarrow> refcnt (bs ! (xs ! j)) = 0 \<longrightarrow> lastuse (bs ! v) \<le> lastuse (bs ! (xs ! j))))"
proof (induction xs arbitrary: c)
  case Nil
  then show ?case by simp
next
  case (Cons x xs)
  let ?c' = "if refcnt (bs ! x) = 0 \<and> (case c of None \<Rightarrow> True | Some y \<Rightarrow> lastuse (bs ! x) < lastuse (bs ! y))
              then Some x else c"
  from Cons.prems have pk: "pick bs ?c' xs = Some v" by simp
  from Cons.IH[OF pk] show ?case
  proof
    assume L: "?c' = Some v \<and> (\<forall>x\<in>set xs. refcnt (bs ! x) = 0 \<longrightarrow> lastuse (bs ! v) \<le> lastuse (bs ! x))"
    show ?thesis
    proof (cases "?c' = c")
      case True
      with L show ?thesis by (auto split: if_splits option.splits simp: not_less)
    next
      case False
      then have xv: "x = v" "refcnt (bs ! x) = 0" "\<forall>y. c = Some y \<longrightarrow> lastuse (bs ! x) < lastuse (bs ! y)"
        using L by (auto split: if_splits option.splits)
      have e: "\<forall>j<length (x # xs). 0 < j \<longrightarrow> refcnt (bs ! ((x # xs) ! j)) = 0 \<longrightarrow> lastuse (bs ! v) \<le> lastuse (bs ! ((x # xs) ! j))"
        using L by (auto simp: nth_Cons split: nat.splits)
      show ?thesis
        apply (rule disjI2)
        apply (rule exI[of _ 0])
        using xv e by simp
    qed
  next
    assume "\<exists>k<length xs. xs ! k = v \<and> refcnt (bs ! v) = 0 \<and>
        (\<forall>y. ?c' = Some y \<longrightarrow> lastuse (bs ! v) < lastuse (bs ! y)) \<and>
        (\<forall>j<k. refcnt (bs ! (xs ! j)) = 0 \<longrightarrow> lastuse (bs ! v) < lastuse (bs ! (xs ! j))) \<and>
        (\<forall>j<length xs. k < j \<longrightarrow> refcnt (bs ! (xs ! j)) = 0 \<longrightarrow> lastuse (bs ! v) \<le> lastuse (bs ! (xs ! j)))"
    then obtain k where k: "k < length xs" "xs ! k = v" "refcnt (bs ! v) = 0"
        "\<forall>y. ?c' = Some y \<longrightarrow> lastuse (bs ! v) < lastuse (bs ! y)"
        "\<forall>j<k. refcnt (bs ! (xs ! j)) = 0 \<longrightarrow> lastuse (bs ! v) < lastuse (bs ! (xs ! j))"
        "\<forall>j<length xs. k < j \<longrightarrow> refcnt (bs ! (xs ! j)) = 0 \<longrightarrow> lastuse (bs ! v) \<le> lastuse (bs ! (xs ! j))"
      by blast
    have a: "Suc k < length (x # xs) \<and> (x # xs) ! Suc k = v" using k by simp
    have b: "\<forall>y. c = Some y \<longrightarrow> lastuse (bs ! v) < lastuse (bs ! y)"
      using k(4) by (auto split: if_splits option.splits)
    have c0: "refcnt (bs ! x) = 0 \<longrightarrow> lastuse (bs ! v) < lastuse (bs ! x)"
      using k(4) by (auto split: if_splits option.splits simp: not_less)
    have c: "\<forall>j<Suc k. refcnt (bs ! ((x # xs) ! j)) = 0 \<longrightarrow> lastuse (bs ! v) < lastuse (bs ! ((x # xs) ! j))"
      using k(5) c0 by (auto simp: nth_Cons less_Suc_eq_0_disj split: nat.splits)
    have d: "\<forall>j<length (x # xs). Suc k < j \<longrightarrow> refcnt (bs ! ((x # xs) ! j)) = 0 \<longrightarrow> lastuse (bs ! v) \<le> lastuse (bs ! ((x # xs) ! j))"
      using k(6) by (auto simp: nth_Cons split: nat.splits)
    show ?thesis
      apply (rule disjI2)
      apply (rule exI[of _ "Suc k"])
      using a b c d k(3) by blast
  qed
qed

lemma scan_chain_pick:
  "drop p (bm ! i) = rest \<Longrightarrow>
   cand bm (fst (scan_chain bs bm i p rest (l, nf))) = pick bs (cand bm l) rest"
proof (induction rest arbitrary: p l nf)
  case Nil
  then show ?case by simp
next
  case (Cons c rest)
  have c: "bm ! i ! p = c" using Cons.prems by (rule nth_via_drop)
  have r: "drop (Suc p) (bm ! i) = rest"
    using Cons.prems by (metis drop_Suc list.sel(3) tl_drop)
  show ?case
    using Cons.IH[OF r] c by (auto simp: cand_def split: option.splits)
qed

lemma scan_chain_pos:
  "scan_chain bs bm i p rest (l, nf) = (l', nf') \<Longrightarrow>
   (l' = l \<and> nf' = nf) \<or> (nf' \<and> (\<exists>q. l' = Some (i, q) \<and> p \<le> q \<and> q < p + length rest))"
proof (induction rest arbitrary: p l nf)
  case Nil
  then show ?case by simp
next
  case (Cons c rest)
  show ?case
  proof (cases "refcnt (bs ! c) = 0 \<and>
           (case l of None \<Rightarrow> True | Some (j, q) \<Rightarrow> lastuse (bs ! c) < lastuse (bs ! (bm ! j ! q)))")
    case True
    then have "scan_chain bs bm i (Suc p) rest (Some (i, p), True) = (l', nf')"
      using Cons.prems by simp
    from Cons.IH[OF this] show ?thesis by auto
  next
    case False
    then have "scan_chain bs bm i (Suc p) rest (l, nf) = (l', nf')"
      using Cons.prems by auto
    from Cons.IH[OF this] show ?thesis by auto
  qed
qed

lemma scan_buckets_pick:
  "length bm = NBUFMAP_BUCKET \<Longrightarrow> i \<le> NBUFMAP_BUCKET \<Longrightarrow>
   cand bm (fst (scan_buckets bs bm i (l, h))) = pick bs (cand bm l) (concat (drop i bm))"
proof (induction bs bm i "(l, h)" arbitrary: l h rule: scan_buckets.induct)
  case (1 bs bm i l h)
  show ?case
  proof (cases "i < NBUFMAP_BUCKET")
    case True
    obtain l' nf' where sc: "scan_chain bs bm i 0 (bm ! i) (l, False) = (l', nf')"
      by (cases "scan_chain bs bm i 0 (bm ! i) (l, False)")
    have d: "drop i bm = bm ! i # drop (Suc i) bm"
      using True 1(2) by (simp add: Cons_nth_drop_Suc)
    have "cand bm l' = pick bs (cand bm l) (bm ! i)"
      using scan_chain_pick[of 0 bm i "bm ! i" bs l False] sc by simp
    moreover have "cand bm (fst (scan_buckets bs bm (Suc i) (l', if nf' then of_nat i else h)))
       = pick bs (cand bm l') (concat (drop (Suc i) bm))"
      using 1(1)[OF True sc[symmetric]] 1(2) True by simp
    ultimately show ?thesis using True sc d by (simp add: pick_append)
  next
    case False
    with 1(2,3) show ?thesis by simp
  qed
qed

lemma scan_buckets_held:
  "held bm l h \<Longrightarrow> scan_buckets bs bm i (l, h) = (l', h') \<Longrightarrow> held bm l' h'"
proof (induction bs bm i "(l, h)" arbitrary: l h rule: scan_buckets.induct)
  case (1 bs bm i l h)
  show ?case
  proof (cases "i < NBUFMAP_BUCKET")
    case True
    obtain l1 nf1 where sc: "scan_chain bs bm i 0 (bm ! i) (l, False) = (l1, nf1)"
      by (cases "scan_chain bs bm i 0 (bm ! i) (l, False)")
    have h1: "held bm l1 (if nf1 then of_nat i else h)"
      using scan_chain_pos[OF sc] 1(2) True by (auto simp: held_def)
    have "scan_buckets bs bm (Suc i) (l1, if nf1 then of_nat i else h) = (l', h')"
      using 1(3) True sc by simp
    from 1(1)[OF True sc[symmetric] h1 this] show ?thesis .
  next
    case False
    with 1(2,3) show ?thesis by simp
  qed
qed

lemma hash_less: "unat (BUFMAP_HASH d n) < NBUFMAP_BUCKET"
proof -
  have "BUFMAP_HASH d n < 13"
    unfolding BUFMAP_HASH_def NBUFMAP_BUCKET_def by (simp add: word_mod_less_divisor)
  then show ?thesis by (simp add: NBUFMAP_BUCKET_def word_less_nat_alt)
qed

lemma of_nat_bucket_eq: "(of_nat i = (k :: u32)) = (i = unat k)" if "i < NBUFMAP_BUCKET"
proof
  assume "of_nat i = k"
  then have "unat k = unat (of_nat i :: u32)" by simp
  also have "\<dots> = i" using that by (simp add: NBUFMAP_BUCKET_def unat_of_nat)
  finally show "i = unat k" by simp
next
  assume "i = unat k"
  then show "of_nat i = k" by simp
qed

lemma scan_all:
  assumes "length (bufmap s) = NBUFMAP_BUCKET"
    and "scan_buckets (buf s) (bufmap s) 0 (None, - 1) = (l, h)"
  shows "cand (bufmap s) l = victim s" and "held (bufmap s) l h"
proof -
  show "cand (bufmap s) l = victim s"
    using scan_buckets_pick[of "bufmap s" 0 "buf s" None "- 1"] assms
    by (simp add: victim_def cand_def)
  show "held (bufmap s) l h"
    using scan_buckets_held[of "bufmap s" None "- 1" "buf s" 0 l h] assms
    by (simp add: held_def)
qed

lemma bget_slow_miss:
  assumes len: "length (bufmap s) = NBUFMAP_BUCKET"
    and miss: "bscan (buf s) (bufmap s ! unat (BUFMAP_HASH d n)) d n = None"
  shows "(victim s = None \<and> bget_slow p s d n = Panic ''bget: no buffers'') \<or>
         (\<exists>i q. i < NBUFMAP_BUCKET \<and> q < length (bufmap s ! i) \<and>
                 victim s = Some (bufmap s ! i ! q) \<and>
                 bget_slow p s d n = acquiresleep p (bufmap s ! i ! q) (install i q d n s))"
proof -
  obtain l h where sc: "scan_buckets (buf s) (bufmap s) 0 (None, - 1) = (l, h)"
    by (cases "scan_buckets (buf s) (bufmap s) 0 (None, - 1)")
  note sa = scan_all[OF len sc]
  show ?thesis
  proof (cases l)
    case None
    then show ?thesis using sa(1) sc miss by (simp add: bget_slow_def cand_def)
  next
    case (Some iq)
    obtain i q where iq: "iq = (i, q)" by (cases iq)
    have b: "i < NBUFMAP_BUCKET" "q < length (bufmap s ! i)" "h = of_nat i"
      using sa(2) Some iq by (auto simp: held_def)
    have v: "victim s = Some (bufmap s ! i ! q)"
      using sa(1) Some iq by (simp add: cand_def)
    have k: "(h \<noteq> BUFMAP_HASH d n) = (i \<noteq> unat (BUFMAP_HASH d n))"
      using b of_nat_bucket_eq[of i "BUFMAP_HASH d n"] by simp
    have n: "i \<noteq> unat (BUFMAP_HASH d n) \<Longrightarrow>
        (bufmap s)[i := take q (bufmap s ! i) @ drop (Suc q) (bufmap s ! i)] ! unat (BUFMAP_HASH d n)
        = bufmap s ! unat (BUFMAP_HASH d n)"
      by simp
    have "bget_slow p s d n = acquiresleep p (bufmap s ! i ! q) (install i q d n s)"
      using sc miss Some iq k n by (simp add: bget_slow_def install_def Let_def)
    then show ?thesis using b v by blast
  qed
qed

section \<open>Properties of the buffer cache: the first read, release, unpin\<close>

lemma upd_replicate_drop:
  "k < length xs \<Longrightarrow> (replicate k x @ drop k xs)[k := x] = replicate (Suc k) x @ drop (Suc k) xs"
proof -
  assume k: "k < length xs"
  have "(replicate k x @ xs ! k # drop (Suc k) xs)[length (replicate k x) := x]
      = replicate k x @ x # drop (Suc k) xs"
    by (rule list_update_length)
  then show ?thesis
    using k by (simp add: Cons_nth_drop_Suc replicate_app_Cons_same)
qed

lemma upd_map_take_drop:
  "k < length xs \<Longrightarrow>
   (map f (take k xs) @ drop k xs)[k := f ((map f (take k xs) @ drop k xs) ! k)]
     = map f (take (Suc k) xs) @ drop (Suc k) xs"
  by (rule nth_equalityI) (auto simp: nth_append nth_list_update less_Suc_eq_le)

lemma binit_bucket_fold:
  "k \<le> length (bufmap s) \<Longrightarrow>
   fold binit_bucket [0..<k] s = s\<lparr>bufmap := replicate k [] @ drop k (bufmap s)\<rparr>"
proof (induction k)
  case 0
  show ?case by simp
next
  case (Suc k)
  then show ?case
    using upd_replicate_drop[of k "bufmap s" "[]"] by (simp add: binit_bucket_def)
qed

lemma binit_buf_fold:
  "k \<le> length (buf s) \<Longrightarrow> bufmap s \<noteq> [] \<Longrightarrow>
   fold binit_buf [0..<k] s =
     s\<lparr>buf := map (\<lambda>b. b\<lparr>lock := None, lastuse := 0, refcnt := 0\<rparr>) (take k (buf s)) @ drop k (buf s),
       bufmap := (bufmap s)[0 := rev [0..<k] @ bufmap s ! 0]\<rparr>"
proof (induction k)
  case 0
  then show ?case by simp
next
  case (Suc k)
  then show ?case
    using upd_map_take_drop[of k "buf s" "\<lambda>b. b\<lparr>lock := None, lastuse := 0, refcnt := 0\<rparr>"]
    by (simp add: binit_buf_def)
qed

lemma binit_bss:
  "binit (bss img) =
     \<lparr>buf = replicate NBUF
        \<lparr>valid = 0, disk = 0, dev = 0, blockno = 0, lock = None, refcnt = 0, lastuse = 0,
         data = replicate BSIZE 0\<rparr>,
      bufmap = rev [0..<NBUF] # replicate (NBUFMAP_BUCKET - 1) [],
      ticks = 0, vdisk = img, vlog = []\<rparr>"
proof -
  have 1: "fold binit_bucket [0..<NBUFMAP_BUCKET] (bss img) = bss img"
    by (subst binit_bucket_fold) (simp_all add: bss_def)
  have 2: "(replicate NBUFMAP_BUCKET ([]::nat list))[0 := rev [0..<NBUF] @ replicate NBUFMAP_BUCKET [] ! 0]
      = rev [0..<NBUF] # replicate (NBUFMAP_BUCKET - 1) []"
    by (simp add: NBUFMAP_BUCKET_def eval_nat_numeral)
  show ?thesis
    unfolding binit_def 1
    by (subst binit_buf_fold) (simp_all add: bss_def 2, simp add: NBUFMAP_BUCKET_def)
qed

lemma hash_1_7: "BUFMAP_HASH 1 7 = 2"
  by (simp add: BUFMAP_HASH_def NBUFMAP_BUCKET_def)

lemma upt_NBUF: "[0..<NBUF] = [0..<NBUF - 1] @ [NBUF - 1]"
proof -
  have "[0..<Suc 29] = [0..<29] @ [29]" by (rule upt_Suc_append) simp
  then show ?thesis by (simp add: NBUF_def)
qed

lemma pick_keep:
  "\<forall>y\<in>set xs. \<not> lastuse (bs ! y) < lastuse (bs ! x) \<Longrightarrow> pick bs (Some x) xs = Some x"
  by (induction xs) auto

lemma bget_cold:
  "bget p (binit (bss img)) 1 7 = Returns ((cold p img)
      \<lparr>buf := (buf (cold p img))[NBUF - 1 := (buf (cold p img) ! (NBUF - 1))\<lparr>valid := 0, data := replicate BSIZE 0\<rparr>], vlog := []\<rparr>, NBUF - 1)"
proof -
  let ?s = "binit (bss img)"
  have bm: "bufmap ?s = rev [0..<NBUF] # replicate (NBUFMAP_BUCKET - 1) []"
    and bs: "buf ?s = replicate NBUF
        \<lparr>valid = 0, disk = 0, dev = 0, blockno = 0, lock = None, refcnt = 0, lastuse = 0,
         data = replicate BSIZE 0\<rparr>"
    by (simp_all add: binit_bss)
  have len: "length (bufmap ?s) = NBUFMAP_BUCKET" by (simp add: bm NBUFMAP_BUCKET_def)
  have miss: "bscan (buf ?s) (bufmap ?s ! unat (BUFMAP_HASH 1 7)) 1 7 = None"
    by (simp add: hash_1_7 bm NBUFMAP_BUCKET_def)
  have cc: "concat (bufmap ?s) = (NBUF - 1) # rev [0..<NBUF - 1]"
    by (simp add: bm upt_NBUF)
  have v: "victim ?s = Some (NBUF - 1)"
    unfolding victim_def cc by (simp add: bs pick_keep NBUF_def)
  from bget_slow_miss[OF len miss, of p] v
  obtain i q where iq: "i < NBUFMAP_BUCKET" "q < length (bufmap ?s ! i)"
      "bufmap ?s ! i ! q = NBUF - 1"
      "bget_slow p ?s 1 7 = acquiresleep p (bufmap ?s ! i ! q) (install i q 1 7 ?s)"
    by auto
  have i0: "i = 0" using iq(1,2) by (cases i) (simp_all add: bm NBUFMAP_BUCKET_def)
  have q0: "q = 0" using iq(2,3) by (simp add: i0 bm rev_nth NBUF_def)
  have "bget p ?s 1 7 = acquiresleep p (NBUF - 1) (install 0 0 1 7 ?s)"
    using iq(3,4) miss by (simp add: bget_def i0 q0)
  also have "\<dots> = Returns ((cold p img)
      \<lparr>buf := (buf (cold p img))[NBUF - 1 := (buf (cold p img) ! (NBUF - 1))\<lparr>valid := 0, data := replicate BSIZE 0\<rparr>], vlog := []\<rparr>, NBUF - 1)"
    by (simp add: acquiresleep_def install_def hash_1_7 binit_bss cold_def upt_NBUF)
      (simp add: NBUF_def NBUFMAP_BUCKET_def)
  finally show ?thesis .
qed

text \<open>
  C4 (as amended). From the state that \<open>binit\<close> leaves, the first \<open>bread(1, 7)\<close> takes
  the head of bucket 0 (the last pool buffer) as its victim and moves it to the bucket
  numbered \<open>BUFMAP_HASH(1, 7) = ((1 << 27) | 7) % 13 = 2\<close>; bucket 7 stays empty. It
  performs exactly one disk read, of block 7 of device 1, and returns the buffer with
  \<open>valid = 1\<close>, \<open>refcnt = 1\<close> and the block's contents.
\<close>

theorem bread_cold_read:
  "\<exists>s'. bread p (binit (bss img)) 1 7 = Returns (s', NBUF - 1) \<and>
        hd (bufmap (binit (bss img)) ! 0) = NBUF - 1 \<and>
        unat (BUFMAP_HASH 1 7) = 2 \<and>
        bufmap s' ! 2 = [NBUF - 1] \<and>
        NBUF - 1 \<notin> set (bufmap s' ! 0) \<and>
        bufmap s' ! 7 = [] \<and>
        vlog s' = [(False, 1, 7)] \<and>
        valid (buf s' ! (NBUF - 1)) = 1 \<and>
        refcnt (buf s' ! (NBUF - 1)) = 1 \<and>
        lock (buf s' ! (NBUF - 1)) = Some p \<and>
        data (buf s' ! (NBUF - 1)) = img (1, 7)"
proof -
  have "bread p (binit (bss img)) 1 7 = Returns (cold p img, NBUF - 1)"
    by (simp add: bread_def bget_cold bread_fill_def virtio_disk_rw_def)
       (simp add: cold_def NBUF_def)
  moreover have "hd (bufmap (binit (bss img)) ! 0) = NBUF - 1"
    by (simp add: binit_bss upt_NBUF)
  moreover have "bufmap (cold p img) ! 2 = [NBUF - 1]"
    "NBUF - 1 \<notin> set (bufmap (cold p img) ! 0)" "bufmap (cold p img) ! 7 = []"
    by (simp_all add: cold_def NBUFMAP_BUCKET_def)
  moreover have "valid (buf (cold p img) ! (NBUF - 1)) = 1"
    "refcnt (buf (cold p img) ! (NBUF - 1)) = 1"
    "lock (buf (cold p img) ! (NBUF - 1)) = Some p"
    "data (buf (cold p img) ! (NBUF - 1)) = img (1, 7)"
    "vlog (cold p img) = [(False, 1, 7)]"
    by (simp_all add: cold_def NBUF_def)
  ultimately show ?thesis by (simp add: hash_1_7)
qed

text \<open>
  C4 (as stated) fails: the hash of device 1, block 7 is not 7, and after the first
  \<open>bread(1, 7)\<close> bucket 7 is empty while the buffer sits in bucket 2.
\<close>

theorem bread_cold_read_counterexample:
  "BUFMAP_HASH 1 7 \<noteq> 7 \<and>
   outcome_state (bread 0 (binit (bss blank)) 1 7) = Some (cold 0 blank) \<and>
   bufmap (cold 0 blank) ! 7 = [] \<and>
   bufmap (cold 0 blank) ! 2 = [NBUF - 1]"
proof -
  have "bread 0 (binit (bss blank)) 1 7 = Returns (cold 0 blank, NBUF - 1)"
    by (simp add: bread_def bget_cold bread_fill_def virtio_disk_rw_def)
       (simp add: cold_def NBUF_def)
  then show ?thesis
    by (simp add: hash_1_7 cold_def NBUFMAP_BUCKET_def)
qed

text \<open>
  C9. For a buffer whose sleep lock the caller holds, \<open>brelse\<close> does not panic, takes
  exactly one off \<open>refcnt\<close> (in 32-bit arithmetic; as a number when the count was not
  zero), sets \<open>lastuse\<close> to the current \<open>ticks\<close> if the new count is zero and leaves it
  alone otherwise, and changes neither \<open>dev\<close>, \<open>blockno\<close>, \<open>valid\<close>, \<open>data\<close> of the buffer
  nor any bucket chain.
\<close>

theorem brelse_frame:
  assumes "b < length (buf s)" and "holdingsleep p b s"
  shows "\<exists>s'. brelse p b s = Inr s' \<and>
           refcnt (buf s' ! b) = refcnt (buf s ! b) - 1 \<and>
           (refcnt (buf s ! b) \<noteq> 0 \<longrightarrow> unat (refcnt (buf s' ! b)) + 1 = unat (refcnt (buf s ! b))) \<and>
           lastuse (buf s' ! b) =
             (if refcnt (buf s ! b) - 1 = 0 then ticks s else lastuse (buf s ! b)) \<and>
           dev (buf s' ! b) = dev (buf s ! b) \<and>
           blockno (buf s' ! b) = blockno (buf s ! b) \<and>
           valid (buf s' ! b) = valid (buf s ! b) \<and>
           data (buf s' ! b) = data (buf s ! b) \<and>
           bufmap s' = bufmap s"
proof -
  have "refcnt (buf s ! b) \<noteq> 0 \<longrightarrow> unat (refcnt (buf s ! b) - 1) + 1 = unat (refcnt (buf s ! b))"
  proof
    assume nz: "refcnt (buf s ! b) \<noteq> 0"
    then have "unat (refcnt (buf s ! b)) \<noteq> 0" by (simp add: unat_eq_0)
    then show "unat (refcnt (buf s ! b) - 1) + 1 = unat (refcnt (buf s ! b))"
      using unat_minus_one[OF nz] by simp
  qed
  then show ?thesis
    using assms by (simp add: brelse_def releasesleep_def refcnt_dec_def)
qed

text \<open>
  Witness for C9: the holder of the buffer read by the first \<open>bread(1, 7)\<close> releases it.
\<close>

theorem brelse_frame_witness:
  "NBUF - 1 < length (buf (cold 1 blank)) \<and> holdingsleep 1 (NBUF - 1) (cold 1 blank) \<and>
   refcnt (buf (cold 1 blank) ! (NBUF - 1)) = 1 \<and>
   (\<exists>s'. brelse 1 (NBUF - 1) (cold 1 blank) = Inr s' \<and>
         refcnt (buf s' ! (NBUF - 1)) = 0 \<and>
         lastuse (buf s' ! (NBUF - 1)) = ticks (cold 1 blank) \<and>
         dev (buf s' ! (NBUF - 1)) = 1 \<and> blockno (buf s' ! (NBUF - 1)) = 7 \<and>
         valid (buf s' ! (NBUF - 1)) = 1 \<and>
         bufmap s' = bufmap (cold 1 blank))"
  using brelse_frame[of "NBUF - 1" "cold 1 blank" 1]
  by (auto simp: cold_def holdingsleep_def NBUF_def)

lemma victim_idle: "victim s = Some v \<Longrightarrow> refcnt (buf s ! v) = 0"
  unfolding victim_def by (drule pick_Some_mem) simp

lemma bget_miss_victim:
  assumes "length (bufmap s) = NBUFMAP_BUCKET"
    and "bscan (buf s) (bufmap s ! unat (BUFMAP_HASH d n)) d n = None"
  shows "outcome_buf (bget p s d n) = victim s"
  using bget_slow_miss[OF assms, of p] assms(2)
  by (auto simp: bget_def acquiresleep_def)

lemma wf_binit: "wf_bcache (binit (bss img))"
  by (auto simp: wf_bcache_def binit_bss NBUFMAP_BUCKET_def nth_Cons split: nat.splits)

section \<open>Properties of the page allocator: free and allocate\<close>

lemma memset_in: "off < n \<Longrightarrow> memset dst c n m (dst + off) = c"
  by (simp add: memset_def)

lemma memset_out: "n \<le> a - dst \<Longrightarrow> memset dst c n m a = m a"
  by (simp add: memset_def not_less[symmetric])

text \<open>
  C7. \<open>kfree(pa)\<close> panics exactly when \<open>pa\<close> is not a multiple of \<open>PGSIZE\<close>, or lies
  below the kernel end, or at or above \<open>PHYSTOP\<close>. For every other \<open>pa\<close> it returns; the
  memory it leaves is the \<open>memset\<close> of the whole page with the byte 1 followed by the
  store of the \<open>next\<close> link, so every byte of the page from offset 8 on reads 1, the first
  eight bytes hold the previous list head, and memory outside the page is untouched; the
  page is the new head of the free list of the current CPU and every other CPU's list is
  unchanged.
\<close>

theorem kfree_spec:
  assumes "cpu < length (kmem s)"
  shows "(kfree kend PHYSTOP cpu pa s = Inl ''kfree'' \<longleftrightarrow>
            pa mod PGSIZE \<noteq> 0 \<or> pa < kend \<or> PHYSTOP \<le> pa) \<and>
         (pa mod PGSIZE = 0 \<and> kend \<le> pa \<and> pa < PHYSTOP \<longrightarrow>
            (\<exists>s'. kfree kend PHYSTOP cpu pa s = Inr s' \<and>
                  mem s' = set_next pa (freelist (kmem s ! cpu)) (memset pa 1 PGSIZE (mem s)) \<and>
                  (\<forall>off. 8 \<le> off \<and> off < PGSIZE \<longrightarrow> mem s' (pa + off) = 1) \<and>
                  (\<forall>off. off < 8 \<longrightarrow>
                     mem s' (pa + off) = ucast (drop_bit (8 * unat off) (freelist (kmem s ! cpu)))) \<and>
                  (\<forall>a. PGSIZE \<le> a - pa \<longrightarrow> mem s' a = mem s a) \<and>
                  length (kmem s') = length (kmem s) \<and>
                  kmem s' ! cpu = pa # kmem s ! cpu \<and>
                  (\<forall>i<length (kmem s). i \<noteq> cpu \<longrightarrow> kmem s' ! i = kmem s ! i)))"
proof -
  have 1: "\<forall>off. 8 \<le> off \<and> off < PGSIZE \<longrightarrow>
      set_next pa v (memset pa 1 PGSIZE m) (pa + off) = 1" for v m
    by (auto simp: set_next_def memset_def not_less[symmetric])
  have 2: "\<forall>off. off < 8 \<longrightarrow> set_next pa v m (pa + off) = ucast (drop_bit (8 * unat off) v)" for v m
    by (simp add: set_next_def)
  have 3: "\<forall>a. PGSIZE \<le> a - pa \<longrightarrow> set_next pa v (memset pa 1 PGSIZE m) a = m a" for v m
  proof (intro allI impI)
    fix a assume a: "PGSIZE \<le> a - pa"
    have "(8::u64) \<le> PGSIZE" by (simp add: PGSIZE_def)
    with a have "8 \<le> a - pa" by (rule order_trans[rotated])
    then show "set_next pa v (memset pa 1 PGSIZE m) a = m a"
      using a by (simp add: set_next_def memset_def not_less[symmetric])
  qed
  show ?thesis
    using assms 1 2 3 by (auto simp: kfree_def not_le not_less)
qed

text \<open>
  Witness for C7: with the kernel end at \<open>0x80020000\<close> and \<open>PHYSTOP = 0x88000000\<close>, freeing
  the page at \<open>0x80021000\<close> on CPU 0 of a two-CPU machine whose memory holds the byte
  \<open>0x58\<close> everywhere; a misaligned address and \<open>PHYSTOP\<close> itself panic.
\<close>

theorem kfree_spec_witness:
  "(0::nat) < length (kmem used2) \<and>
   (0x80021000::u64) mod PGSIZE = 0 \<and> (0x80020000::u64) \<le> 0x80021000 \<and>
   (0x80021000::u64) < 0x88000000 \<and>
   kfree 0x80020000 0x88000000 0 0x80021001 used2 = Inl ''kfree'' \<and>
   kfree 0x80020000 0x88000000 0 0x88000000 used2 = Inl ''kfree'' \<and>
   (\<exists>s'. kfree 0x80020000 0x88000000 0 0x80021000 used2 = Inr s' \<and>
         mem s' (0x80021000 + 8) = 1 \<and> mem s' (0x80021000 + 4095) = 1 \<and>
         mem s' (0x80021000 + 0) = 0 \<and>
         mem s' (0x80021000 + 4096) = 0x58 \<and>
         kmem s' = [0x80021000] # [] # [])"
proof -
  have a: "(0::nat) < length (kmem used2)" by (simp add: used2_def)
  have f: "freelist (kmem used2 ! 0) = 0" by (simp add: used2_def freelist_def)
  have "kfree 0x80020000 0x88000000 0 0x80021001 used2 = Inl ''kfree''"
    using kfree_spec[OF a, of "0x80020000" "0x88000000" "0x80021001"]
    by (simp add: PGSIZE_def)
  moreover have "kfree 0x80020000 0x88000000 0 0x88000000 used2 = Inl ''kfree''"
    using kfree_spec[OF a, of "0x80020000" "0x88000000" "0x88000000"]
    by (simp add: PGSIZE_def)
  moreover have "\<exists>s'. kfree 0x80020000 0x88000000 0 0x80021000 used2 = Inr s' \<and>
         mem s' (0x80021000 + 8) = 1 \<and> mem s' (0x80021000 + 4095) = 1 \<and>
         mem s' (0x80021000 + 0) = 0 \<and>
         mem s' (0x80021000 + 4096) = 0x58 \<and>
         kmem s' = [0x80021000] # [] # []"
    using kfree_spec[OF a, of "0x80020000" "0x88000000" "0x80021000"]
    by (simp add: PGSIZE_def f set_next_def memset_def) (simp add: used2_def kfree_def PGSIZE_def)
  ultimately show ?thesis using a by (simp add: PGSIZE_def)
qed

text \<open>
  C8 (as amended). Whenever \<open>kalloc\<close> returns a page, every byte of that page holds the
  allocation junk byte 5, whatever the page held before: neither a pattern written by
  an earlier holder nor the byte 1 written by \<open>kfree\<close> is left.
\<close>

theorem kalloc_junk:
  assumes "kalloc cpu s = (s', Some p)"
  shows "\<forall>off. off < PGSIZE \<longrightarrow> mem s' (p + off) = 5"
  using assms
  by (auto simp: kalloc_def Let_def memset_def split: list.splits if_splits)

lemma kfree_kalloc:
  assumes "cpu < length (kmem s)" and "kfree kend PHYSTOP cpu pa s = Inr s1"
  shows "kalloc cpu s1 = (s1\<lparr>kmem := kmem s, mem := memset pa 5 PGSIZE (mem s1)\<rparr>, Some pa)"
  using assms by (auto simp: kfree_def kalloc_def Let_def split: if_splits)

text \<open>
  Witness for C8: a page full of the byte \<open>0x58\<close> is freed and allocated again on the
  same CPU.
\<close>

theorem kalloc_junk_witness:
  "snd (kalloc 0 (projr (kfree 0x80020000 0x88000000 0 0x80021000 used2))) = Some 0x80021000 \<and>
   mem (fst (kalloc 0 (projr (kfree 0x80020000 0x88000000 0 0x80021000 used2)))) (0x80021000 + 0) = 5 \<and>
   mem (fst (kalloc 0 (projr (kfree 0x80020000 0x88000000 0 0x80021000 used2)))) (0x80021000 + 4095) = 5"
proof -
  have a: "(0::nat) < length (kmem used2)" by (simp add: used2_def)
  have k: "kfree 0x80020000 0x88000000 0 0x80021000 used2 =
      Inr (projr (kfree 0x80020000 0x88000000 0 0x80021000 used2))"
    by (simp add: kfree_def PGSIZE_def)
  obtain s2 where e: "kalloc 0 (projr (kfree 0x80020000 0x88000000 0 0x80021000 used2)) =
      (s2, Some 0x80021000)"
    using kfree_kalloc[OF a k] by simp
  have "mem s2 (0x80021000 + 0) = 5"
    using kalloc_junk[OF e, THEN spec, of 0] by (simp add: PGSIZE_def)
  moreover have "mem s2 (0x80021000 + 4095) = 5"
    using kalloc_junk[OF e, THEN spec, of 4095] by (simp add: PGSIZE_def)
  ultimately show ?thesis by (simp add: e)
qed

text \<open>
  C8 (as stated) fails: a page holding the pattern \<open>0x58\<close> is freed (offset \<open>0x10\<close> then
  reads the freed junk 1) and the next \<open>kalloc\<close> returns the same page, whose byte at offset
  \<open>0x10\<close> is no longer the freed junk.
\<close>

theorem kalloc_freed_junk_counterexample:
  "mem used2 0x80021010 = 0x58 \<and>
   \<not> isl (kfree 0x80020000 0x88000000 0 0x80021000 used2) \<and>
   mem (projr (kfree 0x80020000 0x88000000 0 0x80021000 used2)) 0x80021010 = 1 \<and>
   snd (kalloc 0 (projr (kfree 0x80020000 0x88000000 0 0x80021000 used2))) = Some 0x80021000 \<and>
   mem (fst (kalloc 0 (projr (kfree 0x80020000 0x88000000 0 0x80021000 used2)))) 0x80021010 \<noteq> 1"
proof -
  have a: "(0::nat) < length (kmem used2)" by (simp add: used2_def)
  have k: "kfree 0x80020000 0x88000000 0 0x80021000 used2 =
      Inr (projr (kfree 0x80020000 0x88000000 0 0x80021000 used2))"
    by (simp add: kfree_def PGSIZE_def)
  have m: "mem (projr (kfree 0x80020000 0x88000000 0 0x80021000 used2)) 0x80021010 = 1"
    by (simp add: kfree_def PGSIZE_def set_next_def memset_def)
  show ?thesis
    by (simp add: kfree_kalloc[OF a k] m)
       (simp add: used2_def kfree_def memset_def PGSIZE_def)
qed

section \<open>Properties of the page allocator: stealing\<close>

declare kalloc_steal.simps [simp del]

lemma upd_nth_cases: "(xs[i := x]) ! j = (if i = j \<and> i < length xs then x else xs ! j)"
  by (cases "i < length xs") (auto simp: not_less list_update_beyond)

lemma steal_pages_shape:
  "steal_pages other local n m = (other', local', n', m') \<Longrightarrow>
   \<exists>k. k \<le> length other \<and> other' = drop k other \<and> local' = rev (take k other) @ local \<and>
       n' = n - int k \<and> (k = 0 \<or> int k \<le> n) \<and> (other' = [] \<or> n' \<le> 0)"
proof (induction other arbitrary: local n m)
  case Nil
  then show ?case by simp
next
  case (Cons r rest)
  show ?case
  proof (cases "n > 0")
    case True
    then have "steal_pages rest (r # local) (n - 1) (set_next r (freelist local) m) = (other', local', n', m')"
      using Cons.prems by simp
    from Cons.IH[OF this] obtain k where k: "k \<le> length rest" "other' = drop k rest"
      "local' = rev (take k rest) @ r # local" "n' = n - 1 - int k" "k = 0 \<or> int k \<le> n - 1"
      "other' = [] \<or> n' \<le> 0" by blast
    show ?thesis
      apply (rule exI[of _ "Suc k"])
      using k True by auto
  next
    case False
    then show ?thesis using Cons.prems by (intro exI[of _ 0]) auto
  qed
qed

lemma kalloc_steal_step:
  assumes "i < length (kmem s)" and "i \<noteq> cpu"
  shows "\<exists>k m'. k \<le> length (kmem s ! i) \<and> (k = 0 \<or> int k \<le> n) \<and>
           (drop k (kmem s ! i) = [] \<or> n - int k \<le> 0) \<and>
           kalloc_steal cpu i n s =
             (if n - int k \<le> 0
              then s\<lparr>kmem := (kmem s)[i := drop k (kmem s ! i),
                                      cpu := rev (take k (kmem s ! i)) @ kmem s ! cpu], mem := m'\<rparr>
              else kalloc_steal cpu (Suc i) (n - int k)
                     (s\<lparr>kmem := (kmem s)[i := drop k (kmem s ! i),
                                      cpu := rev (take k (kmem s ! i)) @ kmem s ! cpu], mem := m'\<rparr>))"
proof -
  obtain other' local' n' m' where sp:
    "steal_pages (kmem s ! i) (kmem s ! cpu) n (mem s) = (other', local', n', m')"
    by (cases "steal_pages (kmem s ! i) (kmem s ! cpu) n (mem s)") auto
  from steal_pages_shape[OF sp] obtain k where k: "k \<le> length (kmem s ! i)"
    "other' = drop k (kmem s ! i)" "local' = rev (take k (kmem s ! i)) @ kmem s ! cpu"
    "n' = n - int k" "k = 0 \<or> int k \<le> n" "other' = [] \<or> n' \<le> 0" by blast
  show ?thesis
    apply (rule exI[of _ k], rule exI[of _ m'])
    apply (subst kalloc_steal.simps)
    using assms sp k by simp
qed

lemma kalloc_steal_steals: "steals cpu i n (kmem s) (kmem (kalloc_steal cpu i n s))"
proof (induction "length (kmem s) - i" arbitrary: i n s)
  case 0
  then have "\<not> i < length (kmem s)" by simp
  then show ?case by (subst kalloc_steal.simps) (simp add: steals.finished)
next
  case (Suc d)
  then have il: "i < length (kmem s)" by simp
  show ?case
  proof (cases "i = cpu")
    case True
    have "d = length (kmem s) - Suc i" using Suc(2) by simp
    from Suc(1)[OF this, of n] have "steals cpu (Suc i) n (kmem s) (kmem (kalloc_steal cpu (Suc i) n s))" .
    moreover have "kalloc_steal cpu i n s = kalloc_steal cpu (Suc i) n s"
      using il True by (subst kalloc_steal.simps) simp
    ultimately show ?thesis using il True by (simp add: steals.skip)
  next
    case False
    from kalloc_steal_step[OF il False, of n] obtain k m' where k:
      "k \<le> length (kmem s ! i)" "k = 0 \<or> int k \<le> n"
      "drop k (kmem s ! i) = [] \<or> n - int k \<le> 0"
      "kalloc_steal cpu i n s =
             (if n - int k \<le> 0
              then s\<lparr>kmem := (kmem s)[i := drop k (kmem s ! i),
                                      cpu := rev (take k (kmem s ! i)) @ kmem s ! cpu], mem := m'\<rparr>
              else kalloc_steal cpu (Suc i) (n - int k)
                     (s\<lparr>kmem := (kmem s)[i := drop k (kmem s ! i),
                                      cpu := rev (take k (kmem s ! i)) @ kmem s ! cpu], mem := m'\<rparr>))"
      by blast
    let ?s1 = "s\<lparr>kmem := (kmem s)[i := drop k (kmem s ! i),
                                      cpu := rev (take k (kmem s ! i)) @ kmem s ! cpu], mem := m'\<rparr>"
    show ?thesis
    proof (cases "n - int k \<le> 0")
      case True
      then show ?thesis using k il False steals.stop[of i "kmem s" cpu k n] by simp
    next
      case nf: False
      have "d = length (kmem ?s1) - Suc i" using Suc(2) by simp
      from Suc(1)[OF this, of "n - int k"]
      have "steals cpu (Suc i) (n - int k) (kmem ?s1) (kmem (kalloc_steal cpu (Suc i) (n - int k) ?s1))" .
      then show ?thesis
        using k il False nf steals.continue[of i "kmem s" cpu k n] by simp
    qed
  qed
qed

lemma steals_length: "steals cpu i n km km' \<Longrightarrow> length km' = length km"
  by (induction rule: steals.induct) auto

lemma steals_before:
  "steals cpu i n km km' \<Longrightarrow> j < i \<Longrightarrow> j \<noteq> cpu \<Longrightarrow> km' ! j = km ! j"
  by (induction rule: steals.induct) auto

lemma steals_drop:
  "steals cpu i n km km' \<Longrightarrow> j \<noteq> cpu \<Longrightarrow> j < length km \<Longrightarrow> \<exists>k. km' ! j = drop k (km ! j)"
proof (induction rule: steals.induct)
  case (finished i km n)
  show ?case by (rule exI[of _ 0]) simp
next
  case (skip i km n km')
  then show ?case by simp
next
  case (stop i km k n)
  show ?case
  proof (cases "j = i")
    case True
    with stop show ?thesis by (intro exI[of _ k]) simp
  next
    case False
    with stop show ?thesis by (intro exI[of _ 0]) simp
  qed
next
  case (continue i km k n km')
  from continue obtain k' where k': "km' ! j = drop k' (km[i := drop k (km ! i), cpu := rev (take k (km ! i)) @ km ! cpu] ! j)"
    by auto
  show ?case
  proof (cases "j = i")
    case True
    with continue k' show ?thesis by (intro exI[of _ "k + k'"]) (simp add: add.commute)
  next
    case False
    with continue k' show ?thesis by (intro exI[of _ k']) simp
  qed
qed

lemma steals_local:
  "steals cpu i n km km' \<Longrightarrow> cpu < length km \<Longrightarrow>
   \<exists>l. km' ! cpu = l @ km ! cpu \<and> (l = [] \<or> int (length l) \<le> n)"
proof (induction rule: steals.induct)
  case (finished i km n)
  then show ?case by simp
next
  case (skip i km n km')
  then show ?case by simp
next
  case (stop i km k n)
  then show ?case by (intro exI[of _ "rev (take k (km ! i))"]) auto
next
  case (continue i km k n km')
  then obtain l where l: "km' ! cpu = l @ rev (take k (km ! i)) @ km ! cpu"
     "l = [] \<or> int (length l) \<le> n - int k" by auto
  show ?case
    using l continue.hyps by (intro exI[of _ "l @ rev (take k (km ! i))"]) auto
qed

lemma sum_length_move:
  assumes "i < length km" and "cpu < length km" and "i \<noteq> cpu" and "k \<le> length (km ! i)"
  shows "sum_list (map length (km[i := drop k (km ! i), cpu := rev (take k (km ! i)) @ km ! cpu]))
     = sum_list (map length km)"
proof -
  have le: "length (km ! i) \<le> sum_list (map length km)"
    using elem_le_sum_list[of i "map length km"] assms(1) by simp
  have 1: "sum_list (map length (km[i := drop k (km ! i)])) + k = sum_list (map length km)"
    using assms le by (simp add: map_update sum_list_update)
  have "sum_list (map length (km[i := drop k (km ! i), cpu := rev (take k (km ! i)) @ km ! cpu]))
      = sum_list (map length (km[i := drop k (km ! i)])) + k"
    using assms by (simp add: map_update sum_list_update)
  with 1 show ?thesis by simp
qed

lemma steals_total:
  "steals cpu i n km km' \<Longrightarrow> cpu < length km \<Longrightarrow>
   sum_list (map length km') = sum_list (map length km)"
proof (induction rule: steals.induct)
  case (finished i km n)
  then show ?case by simp
next
  case (skip i km n km')
  then show ?case by simp
next
  case (stop i km k n)
  have "sum_list (map length (km[i := drop k (km ! i), cpu := rev (take k (km ! i)) @ km ! cpu]))
     = sum_list (map length km)"
    using stop by (simp add: sum_length_move)
  then show ?case .
next
  case (continue i km k n km')
  have "sum_list (map length (km[i := drop k (km ! i), cpu := rev (take k (km ! i)) @ km ! cpu]))
     = sum_list (map length km)"
    by (rule sum_length_move) (use continue.hyps continue.prems in simp_all)
  then show ?case using continue by simp
qed

lemma steals_order:
  "steals cpu i n km km' \<Longrightarrow> cpu < length km \<Longrightarrow> i \<le> j1 \<Longrightarrow> j1 < j2 \<Longrightarrow> j2 < length km \<Longrightarrow>
   j1 \<noteq> cpu \<Longrightarrow> j2 \<noteq> cpu \<Longrightarrow> km' ! j2 \<noteq> km ! j2 \<Longrightarrow> km' ! j1 = []"
proof (induction rule: steals.induct)
  case (finished i km n)
  then show ?case by simp
next
  case (skip i km n km')
  then show ?case by (cases "j1 = i") auto
next
  case (stop i km k n)
  then show ?case by (auto simp: nth_list_update split: if_splits)
next
  case (continue i km k n km')
  let ?km1 = "km[i := drop k (km ! i), cpu := rev (take k (km ! i)) @ km ! cpu]"
  show ?case
  proof (cases "j1 = i")
    case True
    have "km' ! i = ?km1 ! i"
      using steals_before[OF continue.hyps(7), of i] continue.hyps by simp
    then show ?thesis using True continue.hyps by simp
  next
    case False
    then have "Suc i \<le> j1" using continue.prems by simp
    moreover have "km' ! j2 \<noteq> ?km1 ! j2" using continue.prems by simp
    ultimately show ?thesis using continue.IH continue.prems by simp
  qed
qed

lemma steals_success:
  "steals cpu i n km km' \<Longrightarrow> cpu < length km \<Longrightarrow> 0 < n \<Longrightarrow> i \<le> j \<Longrightarrow> j < length km \<Longrightarrow>
   j \<noteq> cpu \<Longrightarrow> km ! j \<noteq> [] \<Longrightarrow> km' ! cpu \<noteq> []"
proof (induction rule: steals.induct)
  case (finished i km n)
  then show ?case by simp
next
  case (skip i km n km')
  then show ?case by (cases "j = i") auto
next
  case (stop i km k n)
  then show ?case by (cases "k = 0") auto
next
  case (continue i km k n km')
  let ?km1 = "km[i := drop k (km ! i), cpu := rev (take k (km ! i)) @ km ! cpu]"
  show ?case
  proof (cases "k = 0")
    case True
    then have e0: "km ! i = []" using continue.hyps by auto
    then have "km[i := []] = km" by (metis list_update_id)
    then have e: "km ! i = []" "?km1 = km" using e0 True by simp_all
    then have "j \<noteq> i" using continue.prems by auto
    then show ?thesis using continue e True by auto
  next
    case False
    then have "?km1 ! cpu \<noteq> []" using continue.hyps continue.prems by auto
    moreover obtain l where "km' ! cpu = l @ ?km1 ! cpu"
      using steals_local[OF continue.hyps(7)] continue.prems by auto
    ultimately show ?thesis by simp
  qed
qed

lemma sum_length_nth: "sum_list (map length km) = (\<Sum>j = 0..<length km. length (km ! j))"
proof -
  have "sum_list (map length km) = (\<Sum>j = 0..<length (map length km). map length km ! j)"
    by (rule sum_list_sum_nth)
  then show ?thesis by simp
qed

lemma steals_lost:
  assumes st: "steals cpu 0 n km km'" and c: "cpu < length km" and e: "km ! cpu = []"
  shows "(\<Sum>j \<in> {0..<length km} - {cpu}. length (km ! j) - length (km' ! j)) = length (km' ! cpu)"
proof -
  let ?V = "{0..<length km} - {cpu}"
  have len: "length km' = length km" using st by (rule steals_length)
  have le: "length (km' ! j) \<le> length (km ! j)" if jV: "j \<in> ?V" for j
  proof -
    obtain k where "km' ! j = drop k (km ! j)" using steals_drop[OF st, of j] jV by auto
    then show ?thesis by simp
  qed
  have f: "(\<Sum>j = 0..<length km. length (km ! j)) = (\<Sum>j \<in> ?V. length (km ! j))"
    using sum.remove[of "{0..<length km}" cpu "\<lambda>j. length (km ! j)"] c e by simp
  have g: "(\<Sum>j = 0..<length km. length (km' ! j)) = length (km' ! cpu) + (\<Sum>j \<in> ?V. length (km' ! j))"
    using sum.remove[of "{0..<length km}" cpu "\<lambda>j. length (km' ! j)"] c by simp
  have "(\<Sum>j = 0..<length km. length (km' ! j)) = (\<Sum>j = 0..<length km. length (km ! j))"
    using steals_total[OF st c] len by (simp add: sum_length_nth)
  then have "(\<Sum>j \<in> ?V. length (km ! j)) = length (km' ! cpu) + (\<Sum>j \<in> ?V. length (km' ! j))"
    using f g by simp
  moreover have "(\<Sum>j \<in> ?V. length (km ! j) - length (km' ! j))
      = (\<Sum>j \<in> ?V. length (km ! j)) - (\<Sum>j \<in> ?V. length (km' ! j))"
    using le by (rule sum_subtractf_nat)
  ultimately show ?thesis by simp
qed

lemma steals_local_exact:
  "steals cpu i n km km' \<Longrightarrow> cpu < length km \<Longrightarrow>
   km' ! cpu = rev (concat (map (\<lambda>j. if j = cpu then []
                 else take (length (km ! j) - length (km' ! j)) (km ! j)) [i..<length km])) @ km ! cpu"
proof (induction rule: steals.induct)
  case (finished i km n)
  then show ?case by simp
next
  case (skip i km n km')
  then show ?case by (simp add: upt_conv_Cons)
next
  case (stop i km k n)
  let ?km' = "km[i := drop k (km ! i), cpu := rev (take k (km ! i)) @ km ! cpu]"
  have "map (\<lambda>j. if j = cpu then [] else take (length (km ! j) - length (?km' ! j)) (km ! j)) [Suc i..<length km]
      = map (\<lambda>j. []) [Suc i..<length km]"
    by (rule map_cong) (use stop in \<open>auto simp: upd_nth_cases\<close>)
  moreover have "concat (map (\<lambda>j. []) [Suc i..<length km]) = ([] :: u64 list)" by simp
  ultimately show ?case using stop by (simp add: upt_conv_Cons upd_nth_cases)
next
  case (continue i km k n km')
  let ?km1 = "km[i := drop k (km ! i), cpu := rev (take k (km ! i)) @ km ! cpu]"
  have kl: "k = length (km ! i)" using continue.hyps by simp
  have i': "km' ! i = []"
    using steals_before[OF continue.hyps(7), of i] continue.hyps by simp
  have len1: "length ?km1 = length km" by simp
  have m: "map (\<lambda>j. if j = cpu then [] else take (length (?km1 ! j) - length (km' ! j)) (?km1 ! j)) [Suc i..<length km]
      = map (\<lambda>j. if j = cpu then [] else take (length (km ! j) - length (km' ! j)) (km ! j)) [Suc i..<length km]"
    by (rule map_cong) (auto simp: upd_nth_cases)
  have "km' ! cpu = rev (concat (map (\<lambda>j. if j = cpu then []
                 else take (length (?km1 ! j) - length (km' ! j)) (?km1 ! j)) [Suc i..<length km])) @ ?km1 ! cpu"
    using continue.IH continue.prems unfolding len1 by simp
  then show ?case
    unfolding m using continue.hyps continue.prems i' kl by (simp add: upt_conv_Cons upd_nth_cases)
qed

lemma steals_gain:
  "steals cpu i n km km' \<Longrightarrow> cpu < length km \<Longrightarrow> 0 \<le> n \<Longrightarrow>
   int (length (km' ! cpu)) = int (length (km ! cpu)) +
      min n (int (sum_list (map (\<lambda>j. if j = cpu then 0 else length (km ! j)) [i..<length km])))"
proof (induction rule: steals.induct)
  case (finished i km n)
  then show ?case by simp
next
  case (skip i km n km')
  then show ?case by (simp add: upt_conv_Cons)
next
  case (stop i km k n)
  then show ?case by (auto simp: upt_conv_Cons upd_nth_cases min_def)
next
  case (continue i km k n km')
  let ?km1 = "km[i := drop k (km ! i), cpu := rev (take k (km ! i)) @ km ! cpu]"
  have kl: "k = length (km ! i)" using continue.hyps by simp
  have len1: "length ?km1 = length km" by simp
  have m: "map (\<lambda>j. if j = cpu then 0 else length (?km1 ! j)) [Suc i..<length km]
      = map (\<lambda>j. if j = cpu then 0 else length (km ! j)) [Suc i..<length km]"
    by (rule map_cong) (auto simp: upd_nth_cases)
  have "int (length (km' ! cpu)) = int (length (?km1 ! cpu)) +
      min (n - int k) (int (sum_list (map (\<lambda>j. if j = cpu then 0 else length (?km1 ! j)) [Suc i..<length km])))"
    using continue.IH continue.prems continue.hyps unfolding len1 by simp
  then show ?case
    unfolding m using continue.hyps continue.prems kl by (simp add: upt_conv_Cons upd_nth_cases min_def)
qed

lemma sum_list_others:
  "cpu < N \<Longrightarrow> sum_list (map (\<lambda>j. if j = cpu then 0 else f j) [0..<N]) = (\<Sum>j \<in> {0..<N} - {cpu}. f j)"
proof -
  assume c: "cpu < N"
  have "sum_list (map (\<lambda>j. if j = cpu then 0 else f j) [0..<N]) = (\<Sum>j = 0..<N. if j = cpu then 0 else f j)"
    by (simp add: interv_sum_list_conv_sum_set_nat)
  also have "\<dots> = (\<Sum>j \<in> {0..<N} - {cpu}. if j = cpu then 0 else f j)"
    using sum.remove[of "{0..<N}" cpu "\<lambda>j. if j = cpu then 0 else f j"] c by simp
  also have "\<dots> = (\<Sum>j \<in> {0..<N} - {cpu}. f j)" by (rule sum.cong) auto
  finally show ?thesis .
qed

text \<open>
  C6. When \<open>kalloc\<close> runs on a CPU whose own free list is empty, pages move from the
  other CPUs' lists to the local list and the allocation is served from them. The pages
  that leave the other lists number at most 64 in total, and exactly 64 when the other
  lists hold that many, all of them otherwise. Each victim list loses a prefix (pages are
  taken from its head); victims are visited in ascending index order: a victim has lost
  pages only if every victim before it ended up empty. If some other list was non-empty
  \<open>kalloc\<close> returns a page \<open>p\<close>: the prefixes the victims lost, in victim order,
  read backwards, are \<open>p\<close> followed by the new local list, so \<open>p\<close> is the page
  taken last, it comes from a victim's list, and its \<open>PGSIZE\<close> bytes are filled
  with 5. If \<open>kalloc\<close> returns no page, every list was empty and no list changed.
\<close>

theorem kalloc_steal_bound:
  assumes c: "cpu < length (kmem s)" and e: "kmem s ! cpu = []" and k: "kalloc cpu s = (s', r)"
  shows "length (kmem s') = length (kmem s) \<and>
         (\<Sum>j \<in> {0..<length (kmem s)} - {cpu}. length (kmem s ! j) - length (kmem s' ! j)) \<le> 64 \<and>
         (\<Sum>j \<in> {0..<length (kmem s)} - {cpu}. length (kmem s ! j) - length (kmem s' ! j))
            = min 64 (\<Sum>j \<in> {0..<length (kmem s)} - {cpu}. length (kmem s ! j)) \<and>
         (\<forall>j<length (kmem s). j \<noteq> cpu \<longrightarrow> (\<exists>k\<le>64. kmem s' ! j = drop k (kmem s ! j))) \<and>
         (\<forall>j1 j2. j1 < j2 \<and> j2 < length (kmem s) \<and> j1 \<noteq> cpu \<and> j2 \<noteq> cpu \<and>
                   kmem s' ! j2 \<noteq> kmem s ! j2 \<longrightarrow> kmem s' ! j1 = []) \<and>
         ((\<exists>j<length (kmem s). j \<noteq> cpu \<and> kmem s ! j \<noteq> []) \<longrightarrow> r \<noteq> None) \<and>
         (r = None \<longrightarrow> (\<forall>j<length (kmem s). kmem s ! j = []) \<and> kmem s' = kmem s) \<and>
         (\<forall>p. r = Some p \<longrightarrow>
            p # kmem s' ! cpu =
              rev (concat (map (\<lambda>j. if j = cpu then []
                     else take (length (kmem s ! j) - length (kmem s' ! j)) (kmem s ! j))
                   [0..<length (kmem s)])) \<and>
            (\<exists>j<length (kmem s). j \<noteq> cpu \<and> p \<in> set (kmem s ! j)) \<and>
            (\<forall>a. a - p < PGSIZE \<longrightarrow> mem s' a = 5))"
proof -
  let ?t = "kalloc_steal cpu 0 64 s"
  let ?V = "{0..<length (kmem s)} - {cpu}"
  let ?T = "\<lambda>s'. concat (map (\<lambda>j. if j = cpu then []
                     else take (length (kmem s ! j) - length (kmem s' ! j)) (kmem s ! j))
                   [0..<length (kmem s)])"
  have st: "steals cpu 0 64 (kmem s) (kmem ?t)" by (rule kalloc_steal_steals)
  have len: "length (kmem ?t) = length (kmem s)" using st by (rule steals_length)
  have oth: "kmem s' ! j = kmem ?t ! j" if "j \<noteq> cpu" for j
    using k e that by (auto simp: kalloc_def Let_def split: list.splits)
  have len': "length (kmem s') = length (kmem s)"
    using k e len by (auto simp: kalloc_def Let_def split: list.splits)
  obtain l where l: "kmem ?t ! cpu = l @ kmem s ! cpu" "l = [] \<or> int (length l) \<le> 64"
    using steals_local[OF st c] by auto
  then have ll: "length (kmem ?t ! cpu) \<le> 64" using e by auto
  have lost: "(\<Sum>j \<in> ?V. length (kmem s ! j) - length (kmem s' ! j)) = length (kmem ?t ! cpu)"
  proof -
    have "(\<Sum>j \<in> ?V. length (kmem s ! j) - length (kmem s' ! j))
        = (\<Sum>j \<in> ?V. length (kmem s ! j) - length (kmem ?t ! j))"
      by (rule sum.cong) (simp_all add: oth)
    also have "\<dots> = length (kmem ?t ! cpu)" using steals_lost[OF st c e] .
    finally show ?thesis .
  qed
  have tot: "(\<Sum>j \<in> ?V. length (kmem s ! j) - length (kmem s' ! j)) \<le> 64"
    using lost ll by simp
  define S where "S = (\<Sum>j \<in> ?V. length (kmem s ! j))"
  have sl: "sum_list (map (\<lambda>j. if j = cpu then 0 else length (kmem s ! j)) [0..<length (kmem s)]) = S"
    unfolding S_def using c by (rule sum_list_others)
  have "int (length (kmem ?t ! cpu)) = int (length (kmem s ! cpu)) +
      min 64 (int (sum_list (map (\<lambda>j. if j = cpu then 0 else length (kmem s ! j)) [0..<length (kmem s)])))"
    by (rule steals_gain[OF st c]) simp
  then have "int (length (kmem ?t ! cpu)) = min 64 (int S)"
    unfolding sl e by simp
  then have "length (kmem ?t ! cpu) = min 64 S"
    by (simp add: min_def split: if_splits)
  then have exact: "(\<Sum>j \<in> ?V. length (kmem s ! j) - length (kmem s' ! j))
            = min 64 (\<Sum>j \<in> ?V. length (kmem s ! j))"
    using lost unfolding S_def by simp
  have head: "\<exists>k\<le>64. kmem s' ! j = drop k (kmem s ! j)" if j: "j < length (kmem s)" "j \<noteq> cpu" for j
  proof -
    obtain k0 where k0: "kmem ?t ! j = drop k0 (kmem s ! j)"
      using steals_drop[OF st j(2) j(1)] by auto
    let ?k = "length (kmem s ! j) - length (kmem s' ! j)"
    have "j \<in> ?V" using j by simp
    then have "?k \<le> (\<Sum>j \<in> ?V. length (kmem s ! j) - length (kmem s' ! j))"
      by (intro member_le_sum) simp_all
    then have "?k \<le> 64" using tot by simp
    moreover have "kmem s' ! j = drop ?k (kmem s ! j)"
      using k0 oth[OF j(2)] by (cases "k0 \<le> length (kmem s ! j)") simp_all
    ultimately show ?thesis by blast
  qed
  have ord: "kmem s' ! j1 = []"
    if "j1 < j2" "j2 < length (kmem s)" "j1 \<noteq> cpu" "j2 \<noteq> cpu" "kmem s' ! j2 \<noteq> kmem s ! j2" for j1 j2
    using steals_order[OF st c, of j1 j2] that oth by simp
  have suc: "r \<noteq> None" if "j < length (kmem s)" "j \<noteq> cpu" "kmem s ! j \<noteq> []" for j
  proof -
    have "kmem ?t ! cpu \<noteq> []" using steals_success[OF st c _ _ that] by simp
    then show ?thesis using k e by (auto simp: kalloc_def Let_def split: list.splits)
  qed
  have Teq: "?T s' = ?T ?t"
    by (rule arg_cong[of _ _ concat], rule map_cong) (simp_all add: oth)
  have loc: "kmem ?t ! cpu = rev (?T ?t)"
    using steals_local_exact[OF st c] e by simp
  have none: "(\<forall>j<length (kmem s). kmem s ! j = []) \<and> kmem s' = kmem s" if rn: "r = None"
  proof -
    have tn: "kmem ?t ! cpu = []" and s': "s' = ?t"
      using k e rn by (auto simp: kalloc_def Let_def split: list.splits)
    have a: "kmem s ! j = []" if "j < length (kmem s)" for j
      using suc[OF that] rn e by (cases "j = cpu") auto
    have "kmem ?t ! j = kmem s ! j" if jl: "j < length (kmem s)" for j
    proof (cases "j = cpu")
      case True
      then show ?thesis using tn e by simp
    next
      case False
      obtain k0 where "kmem ?t ! j = drop k0 (kmem s ! j)"
        using steals_drop[OF st False jl] by auto
      then show ?thesis using a[OF jl] by simp
    qed
    then have "kmem ?t = kmem s" using len by (intro nth_equalityI) simp_all
    then show ?thesis using a s' by simp
  qed
  have kk: "kalloc cpu s = (case kmem ?t ! cpu of [] \<Rightarrow> (?t, None)
       | r # rest \<Rightarrow> (?t\<lparr>kmem := (kmem ?t)[cpu := rest], mem := memset r 5 PGSIZE (mem ?t)\<rparr>, Some r))"
    using e by (simp add: kalloc_def Let_def)
  have some: "p # kmem s' ! cpu = rev (?T s') \<and>
            (\<exists>j<length (kmem s). j \<noteq> cpu \<and> p \<in> set (kmem s ! j)) \<and>
            (\<forall>a. a - p < PGSIZE \<longrightarrow> mem s' a = 5)" if rs: "r = Some p" for p
  proof (cases "kmem ?t ! cpu")
    case Nil
    then show ?thesis using kk k rs by simp
  next
    case (Cons p' rest)
    then have pp: "p' = p"
      and s': "s' = ?t\<lparr>kmem := (kmem ?t)[cpu := rest], mem := memset p 5 PGSIZE (mem ?t)\<rparr>"
      using kk k rs by simp_all
    have tr: "kmem ?t ! cpu = p # rest" using Cons pp by simp
    have "kmem s' ! cpu = rest" unfolding s' using c len by simp
    then have 1: "p # kmem s' ! cpu = rev (?T s')" using tr loc unfolding Teq by simp
    have "p \<in> set (rev (?T s'))" unfolding 1[symmetric] by simp
    then have "p \<in> set (?T s')" by simp
    then obtain j where j: "j \<in> set [0..<length (kmem s)]"
       "p \<in> set (if j = cpu then [] else take (length (kmem s ! j) - length (kmem s' ! j)) (kmem s ! j))"
      unfolding set_concat set_map by blast
    then have jc: "j \<noteq> cpu" by (cases "j = cpu") simp_all
    then have "p \<in> set (take (length (kmem s ! j) - length (kmem s' ! j)) (kmem s ! j))"
      using j(2) by simp
    then have "p \<in> set (kmem s ! j)" by (rule in_set_takeD)
    with j(1) jc have 2: "\<exists>j<length (kmem s). j \<noteq> cpu \<and> p \<in> set (kmem s ! j)" by auto
    have 3: "\<forall>a. a - p < PGSIZE \<longrightarrow> mem s' a = 5" unfolding s' by (simp add: memset_def)
    show ?thesis using 1 2 3 by blast
  qed
  show ?thesis
    apply (intro conjI allI impI)
    subgoal by (rule len')
    subgoal by (rule tot)
    subgoal by (rule exact)
    subgoal for j by (rule head)
    subgoal for j1 j2 using ord[of j1 j2] by simp
    subgoal using suc by blast
    subgoal for j using none by simp
    subgoal using none by simp
    subgoal for p using some[of p] by simp
    subgoal for p using some[of p] by simp
    subgoal for p a using some[of p] by simp
    done
qed

text \<open>
  Witness for C6: two CPUs, CPU 0 with an empty list and CPU 1 holding 1000 free pages.
  \<open>kalloc\<close> on CPU 0 takes the first 64 pages of CPU 1, returns the 64th of them
  and leaves the other 63, most recently taken first, on the list of CPU 0.
\<close>

theorem kalloc_steal_bound_witness:
  "(0::nat) < length (kmem drained) \<and> kmem drained ! 0 = [] \<and>
   kmem drained ! 1 = pages 1000 \<and>
   length (kmem (fst (kalloc 0 drained))) = 2 \<and>
   snd (kalloc 0 drained) = Some (pages 1000 ! 63) \<and>
   kmem (fst (kalloc 0 drained)) ! 0 = rev (take 63 (pages 1000)) \<and>
   kmem (fst (kalloc 0 drained)) ! 1 = drop 64 (pages 1000) \<and>
   mem (fst (kalloc 0 drained)) (pages 1000 ! 63 + 4095) = 5"
proof -
  let ?s' = "fst (kalloc 0 drained)" and ?r = "snd (kalloc 0 drained)"
  have c: "(0::nat) < length (kmem drained)" and e: "kmem drained ! 0 = []"
    and n: "length (kmem drained ! 1) = 1000" and p: "kmem drained ! 1 = pages 1000"
    and l2: "length (kmem drained) = 2"
    by (simp_all add: drained_def pages_def)
  have k: "kalloc 0 drained = (?s', ?r)" by simp
  have V: "{0..<2::nat} - {0} = {1}" by auto
  have ne: "\<exists>j<length (kmem drained). j \<noteq> 0 \<and> kmem drained ! j \<noteq> []"
    by (rule exI[of _ 1]) (use n in \<open>auto simp: drained_def\<close>)
  note b = kalloc_steal_bound[OF c e k]
  note b1 = b[THEN conjunct1]
  note b3 = b[THEN conjunct2, THEN conjunct2, THEN conjunct1]
  note b4 = b[THEN conjunct2, THEN conjunct2, THEN conjunct2, THEN conjunct1]
  note b6 = b[THEN conjunct2, THEN conjunct2, THEN conjunct2, THEN conjunct2, THEN conjunct2, THEN conjunct1]
  note b8 = b[THEN conjunct2, THEN conjunct2, THEN conjunct2, THEN conjunct2, THEN conjunct2, THEN conjunct2, THEN conjunct2]
  from b1 have len: "length (kmem ?s') = 2" using l2 by simp
  from b3 have "(\<Sum>j \<in> {0..<length (kmem drained)} - {0}. length (kmem drained ! j) - length (kmem ?s' ! j))
            = min 64 (\<Sum>j \<in> {0..<length (kmem drained)} - {0}. length (kmem drained ! j))"
    .
  then have lost: "1000 - length (kmem ?s' ! 1) = 64" unfolding l2 V using n by simp
  from b4 have h: "\<forall>j<length (kmem drained). j \<noteq> 0 \<longrightarrow> (\<exists>k\<le>64. kmem ?s' ! j = drop k (kmem drained ! j))"
    .
  have "(1::nat) < length (kmem drained)" "(1::nat) \<noteq> 0" using l2 by simp_all
  with h have "\<exists>k\<le>64. kmem ?s' ! 1 = drop k (kmem drained ! 1)" by blast
  then obtain k0 where k0: "kmem ?s' ! 1 = drop k0 (pages 1000)"
    using p by auto
  have lp: "length (pages 1000) = 1000" by (simp add: pages_def)
  have "k0 = 64" using lost k0 lp by simp
  then have 1: "kmem ?s' ! 1 = drop 64 (pages 1000)" using k0 by simp
  from b6 ne have "?r \<noteq> None" by blast
  then obtain pg where pg: "?r = Some pg" by auto
  from b8 pg have "pg # kmem ?s' ! 0 =
              rev (concat (map (\<lambda>j. if j = 0 then []
                     else take (length (kmem drained ! j) - length (kmem ?s' ! j)) (kmem drained ! j))
                   [0..<length (kmem drained)]))"
    and m: "\<forall>a. a - pg < PGSIZE \<longrightarrow> mem ?s' a = 5" by blast+
  then have "pg # kmem ?s' ! 0 = rev (take 64 (pages 1000))"
    unfolding l2 using p 1 lp by (simp add: upt_conv_Cons)
  moreover have "take 64 (pages 1000) = take 63 (pages 1000) @ [pages 1000 ! 63]"
    using take_Suc_conv_app_nth[of 63 "pages 1000"] lp by simp
  ultimately have 2: "pg = pages 1000 ! 63" "kmem ?s' ! 0 = rev (take 63 (pages 1000))" by simp_all
  have "(pg + 4095) - pg < PGSIZE" by (simp add: PGSIZE_def)
  with m have 3: "mem ?s' (pg + 4095) = 5" by blast
  show ?thesis using c e p len pg 1 2 3 by simp
qed

section \<open>Properties of the buffer cache: victim selection and exhaustion\<close>

lemma in_concat_nth:
  "b \<in> set (concat bm) \<longleftrightarrow> (\<exists>i<length bm. b \<in> set (bm ! i))"
proof
  assume "b \<in> set (concat bm)"
  then obtain xs where xs: "xs \<in> set bm" "b \<in> set xs" by auto
  then obtain i where "i < length bm" "bm ! i = xs" by (auto simp: in_set_conv_nth)
  with xs show "\<exists>i<length bm. b \<in> set (bm ! i)" by auto
next
  assume "\<exists>i<length bm. b \<in> set (bm ! i)"
  then obtain i where "i < length bm" "b \<in> set (bm ! i)" by auto
  then show "b \<in> set (concat bm)" using nth_mem[of i bm] by auto
qed

lemma wf_chain_set: "wf_bcache s \<Longrightarrow> set (concat (bufmap s)) = {0..<length (buf s)}"
proof (rule set_eqI)
  fix b
  assume "wf_bcache s"
  then show "b \<in> set (concat (bufmap s)) \<longleftrightarrow> b \<in> {0..<length (buf s)}"
    unfolding in_concat_nth wf_bcache_def by auto
qed

lemma install_buf:
  assumes "bufmap s ! i ! q < length (buf s)"
  shows "buf (install i q d n s) ! (bufmap s ! i ! q)
           = (buf s ! (bufmap s ! i ! q))\<lparr>dev := d, blockno := n, refcnt := 1, valid := 0\<rparr>"
  using assms by (simp add: install_def Let_def)

lemma acquiresleep_cases:
  "(acquiresleep p b s = Returns (s\<lparr>buf := (buf s)[b := (buf s ! b)\<lparr>lock := Some p\<rparr>]\<rparr>, b) \<and>
      lock (buf s ! b) = None) \<or>
   (acquiresleep p b s = Sleeps (s, b) \<and> lock (buf s ! b) \<noteq> None)"
  by (simp add: acquiresleep_def)

text \<open>
  C2. When \<open>bget\<close> misses, the buffer it hands out is idle (\<open>refcnt = 0\<close>) and has the
  least \<open>lastuse\<close> among all idle buffers of the pool. Among equals the first one in scan
  order wins: in the sequence of all chains, bucket 0 first and each chain from its head,
  every idle buffer in front of the victim has a strictly larger \<open>lastuse\<close>. The victim
  comes back carrying the new fingerprint, \<open>refcnt = 1\<close> and \<open>valid = 0\<close>.
\<close>

theorem bget_victim_lru:
  assumes wf: "wf_bcache s"
    and miss: "bscan (buf s) (bufmap s ! unat (BUFMAP_HASH d n)) d n = None"
    and out: "outcome_buf (bget p s d n) = Some v"
  shows "refcnt (buf s ! v) = 0 \<and>
         (\<forall>b<length (buf s). refcnt (buf s ! b) = 0 \<longrightarrow> lastuse (buf s ! v) \<le> lastuse (buf s ! b)) \<and>
         (\<exists>k<length (concat (bufmap s)).
             concat (bufmap s) ! k = v \<and>
             (\<forall>j<k. refcnt (buf s ! (concat (bufmap s) ! j)) = 0 \<longrightarrow>
                    lastuse (buf s ! v) < lastuse (buf s ! (concat (bufmap s) ! j)))) \<and>
         (\<exists>s'. outcome_state (bget p s d n) = Some s' \<and>
               dev (buf s' ! v) = d \<and> blockno (buf s' ! v) = n \<and>
               refcnt (buf s' ! v) = 1 \<and> valid (buf s' ! v) = 0)"
proof -
  let ?xs = "concat (bufmap s)"
  have len: "length (bufmap s) = NBUFMAP_BUCKET" using wf by (simp add: wf_bcache_def)
  have v: "victim s = Some v" using bget_miss_victim[OF len miss, of p] out by simp
  from pick_first[OF v[unfolded victim_def]]
  obtain k where k: "k < length ?xs" "?xs ! k = v" "refcnt (buf s ! v) = 0"
    "\<forall>j<k. refcnt (buf s ! (?xs ! j)) = 0 \<longrightarrow> lastuse (buf s ! v) < lastuse (buf s ! (?xs ! j))"
    "\<forall>j<length ?xs. k < j \<longrightarrow> refcnt (buf s ! (?xs ! j)) = 0 \<longrightarrow>
        lastuse (buf s ! v) \<le> lastuse (buf s ! (?xs ! j))"
    by auto
  have vl: "v < length (buf s)"
    using k(1,2) wf_chain_set[OF wf] nth_mem[OF k(1)] by auto
  have min: "lastuse (buf s ! v) \<le> lastuse (buf s ! b)"
    if b: "b < length (buf s)" "refcnt (buf s ! b) = 0" for b
  proof -
    have "b \<in> set ?xs" using b(1) wf_chain_set[OF wf] by simp
    then obtain j where j: "j < length ?xs" "?xs ! j = b" by (metis in_set_conv_nth)
    consider "j < k" | "j = k" | "k < j" by linarith
    then show ?thesis
    proof cases
      case 1 then show ?thesis using k(4) j b(2) by auto
    next
      case 2 then show ?thesis using k(2) j by simp
    next
      case 3 then show ?thesis using k(5) j b(2) by auto
    qed
  qed
  from bget_slow_miss[OF len miss, of p] v
  obtain i q where iq: "bufmap s ! i ! q = v"
      "bget_slow p s d n = acquiresleep p v (install i q d n s)"
    by auto
  have g: "bget p s d n = acquiresleep p v (install i q d n s)"
    using miss iq by (simp add: bget_def)
  have ib: "buf (install i q d n s) ! v = (buf s ! v)\<lparr>dev := d, blockno := n, refcnt := 1, valid := 0\<rparr>"
    using install_buf[of s i q d n] iq(1) vl by simp
  have il: "v < length (buf (install i q d n s))" using vl by (simp add: install_def Let_def)
  have st: "\<exists>s'. outcome_state (bget p s d n) = Some s' \<and>
               dev (buf s' ! v) = d \<and> blockno (buf s' ! v) = n \<and>
               refcnt (buf s' ! v) = 1 \<and> valid (buf s' ! v) = 0"
    using acquiresleep_cases[of p v "install i q d n s"] ib il by (auto simp: g)
  show ?thesis using k(1-4) min st by blast
qed

text \<open>
  Witness for C2: the first \<open>bget(1, 7)\<close> after \<open>binit\<close>; all buffers are idle with
  \<open>lastuse = 0\<close>, and the head of bucket 0 is taken.
\<close>

theorem bget_victim_lru_witness:
  "wf_bcache (binit (bss blank)) \<and>
   bscan (buf (binit (bss blank))) (bufmap (binit (bss blank)) ! unat (BUFMAP_HASH 1 7)) 1 7 = None \<and>
   outcome_buf (bget 0 (binit (bss blank)) 1 7) = Some (NBUF - 1) \<and>
   refcnt (buf (binit (bss blank)) ! (NBUF - 1)) = 0 \<and>
   refcnt (buf (binit (bss blank)) ! 0) = 0 \<and>
   lastuse (buf (binit (bss blank)) ! (NBUF - 1)) \<le> lastuse (buf (binit (bss blank)) ! 0)"
proof -
  have a: "wf_bcache (binit (bss blank))" by (rule wf_binit)
  have b: "bscan (buf (binit (bss blank))) (bufmap (binit (bss blank)) ! unat (BUFMAP_HASH 1 7)) 1 7 = None"
    by (simp add: binit_bss hash_1_7 NBUFMAP_BUCKET_def)
  have c: "outcome_buf (bget 0 (binit (bss blank)) 1 7) = Some (NBUF - 1)"
    by (simp add: bget_cold)
  have e: "(0::nat) < length (buf (binit (bss blank)))" "refcnt (buf (binit (bss blank)) ! 0) = 0"
    by (simp_all add: binit_bss NBUF_def)
  show ?thesis using bget_victim_lru[OF a b c] a b c e by blast
qed

text \<open>
  C5. \<open>bget\<close> panics, with the message "bget: no buffers", exactly when the lookup misses
  and every buffer of the pool has a non-zero \<open>refcnt\<close>; it has no other panic, and \<open>bread\<close>
  panics only when its \<open>bget\<close> does. When the
  lookup misses and some buffer is idle, \<open>bget\<close> hands out an idle buffer: it returns it
  at once when that buffer's sleep lock is free, and otherwise sleeps on that lock.
\<close>

theorem bget_panic_iff:
  assumes wf: "wf_bcache s"
  shows "(bget p s d n = Panic ''bget: no buffers'' \<longleftrightarrow>
            bscan (buf s) (bufmap s ! unat (BUFMAP_HASH d n)) d n = None \<and>
            (\<forall>b<length (buf s). refcnt (buf s ! b) \<noteq> 0)) \<and>
         (\<forall>e. bget p s d n = Panic e \<longrightarrow> e = ''bget: no buffers'') \<and>
         (\<forall>e. bread p s d n = Panic e \<longleftrightarrow> bget p s d n = Panic e) \<and>
         (bscan (buf s) (bufmap s ! unat (BUFMAP_HASH d n)) d n = None \<and>
          (\<exists>b<length (buf s). refcnt (buf s ! b) = 0) \<longrightarrow>
            (\<exists>s' v. v < length (buf s) \<and> refcnt (buf s ! v) = 0 \<and>
                    (bget p s d n = Returns (s', v) \<or> bget p s d n = Sleeps (s', v)) \<and>
                    (lock (buf s ! v) = None \<longrightarrow> bget p s d n = Returns (s', v))))"
proof -
  have br: "\<forall>e. bread p s d n = Panic e \<longleftrightarrow> bget p s d n = Panic e"
    by (auto simp: bread_def split: outcome.splits)
  show ?thesis
  proof (cases "bscan (buf s) (bufmap s ! unat (BUFMAP_HASH d n)) d n")
    case (Some b)
    then have "bget p s d n = acquiresleep p b (refcnt_inc b s)" by (simp add: bget_def)
    then have "\<forall>e. bget p s d n \<noteq> Panic e" by (simp add: acquiresleep_def)
    then show ?thesis using Some br by simp
  next
    case None
    have len: "length (bufmap s) = NBUFMAP_BUCKET" using wf by (simp add: wf_bcache_def)
    have vn: "victim s = None \<longleftrightarrow> (\<forall>b<length (buf s). refcnt (buf s ! b) \<noteq> 0)"
      unfolding victim_def pick_None using wf_chain_set[OF wf] by auto
    from bget_slow_miss[OF len None, of p]
    show ?thesis
    proof
      assume a: "victim s = None \<and> bget_slow p s d n = Panic ''bget: no buffers''"
      then have "bget p s d n = Panic ''bget: no buffers''" using None by (simp add: bget_def)
      then show ?thesis using a vn None br by auto
    next
      assume "\<exists>i q. i < NBUFMAP_BUCKET \<and> q < length (bufmap s ! i) \<and>
                   victim s = Some (bufmap s ! i ! q) \<and>
                   bget_slow p s d n = acquiresleep p (bufmap s ! i ! q) (install i q d n s)"
      then obtain i q where iq: "i < NBUFMAP_BUCKET" "q < length (bufmap s ! i)"
        "victim s = Some (bufmap s ! i ! q)"
        "bget_slow p s d n = acquiresleep p (bufmap s ! i ! q) (install i q d n s)" by blast
      let ?v = "bufmap s ! i ! q"
      have g: "bget p s d n = acquiresleep p ?v (install i q d n s)"
        using None iq by (simp add: bget_def)
      have vl: "?v < length (buf s)" using wf iq(1,2) by (auto simp: wf_bcache_def)
      have r0: "refcnt (buf s ! ?v) = 0" using iq(3) by (rule victim_idle)
      have lk: "lock (buf (install i q d n s) ! ?v) = lock (buf s ! ?v)"
        using install_buf[OF vl, of d n] by simp
      have np: "\<forall>e. bget p s d n \<noteq> Panic e" using g by (simp add: acquiresleep_def)
      have nv: "\<not> (\<forall>b<length (buf s). refcnt (buf s ! b) \<noteq> 0)" using vl r0 by auto
      have "\<exists>s'. (bget p s d n = Returns (s', ?v) \<or> bget p s d n = Sleeps (s', ?v)) \<and>
                  (lock (buf s ! ?v) = None \<longrightarrow> bget p s d n = Returns (s', ?v))"
        using acquiresleep_cases[of p ?v "install i q d n s"] lk by (auto simp: g)
      then show ?thesis using np nv vl r0 None br by auto
    qed
  qed
qed

lemma wf_exhausted: "wf_bcache exhausted"
  by (auto simp: wf_bcache_def exhausted_def NBUFMAP_BUCKET_def nth_Cons split: nat.splits)

text \<open>
  Witness for C5: right after \<open>binit\<close> a miss does not panic; with every buffer
  referenced, the same call panics.
\<close>

theorem bget_panic_iff_witness:
  "wf_bcache (binit (bss blank)) \<and>
   bscan (buf (binit (bss blank))) (bufmap (binit (bss blank)) ! unat (BUFMAP_HASH 1 7)) 1 7 = None \<and>
   refcnt (buf (binit (bss blank)) ! 0) = 0 \<and>
   bget 0 (binit (bss blank)) 1 7 \<noteq> Panic ''bget: no buffers'' \<and>
   outcome_buf (bget 0 (binit (bss blank)) 1 7) = Some (NBUF - 1) \<and>
   wf_bcache exhausted \<and>
   bscan (buf exhausted) (bufmap exhausted ! unat (BUFMAP_HASH 1 7)) 1 7 = None \<and>
   bget 0 exhausted 1 7 = Panic ''bget: no buffers''"
proof -
  have a: "wf_bcache (binit (bss blank))" by (rule wf_binit)
  have b: "bscan (buf (binit (bss blank))) (bufmap (binit (bss blank)) ! unat (BUFMAP_HASH 1 7)) 1 7 = None"
    by (simp add: binit_bss hash_1_7 NBUFMAP_BUCKET_def)
  have c: "(0::nat) < length (buf (binit (bss blank))) \<and> refcnt (buf (binit (bss blank)) ! 0) = 0"
    by (simp add: binit_bss NBUF_def)
  have d: "outcome_buf (bget 0 (binit (bss blank)) 1 7) = Some (NBUF - 1)"
    by (simp add: bget_cold)
  have e: "bscan (buf exhausted) (bufmap exhausted ! unat (BUFMAP_HASH 1 7)) 1 7 = None"
    by (simp add: exhausted_def hash_1_7 NBUFMAP_BUCKET_def)
  have f: "\<forall>b<length (buf exhausted). refcnt (buf exhausted ! b) \<noteq> 0"
    by (simp add: exhausted_def)
  have 1: "bget 0 (binit (bss blank)) 1 7 \<noteq> Panic ''bget: no buffers''"
    using bget_panic_iff[OF a, of 0 1 7] c by auto
  have 2: "bget 0 exhausted 1 7 = Panic ''bget: no buffers''"
    using bget_panic_iff[OF wf_exhausted, of 0 1 7] e f by blast
  show ?thesis using a b c d e 1 2 wf_exhausted by simp
qed

section \<open>Properties of the buffer cache: one buffer per block\<close>

lemma bscan_Some:
  "bscan bs c d n = Some b \<Longrightarrow> b \<in> set c \<and> dev (bs ! b) = d \<and> blockno (bs ! b) = n"
  by (induction c) (auto split: if_splits)

lemma bscan_None:
  "bscan bs c d n = None \<longleftrightarrow> (\<forall>b\<in>set c. \<not> (dev (bs ! b) = d \<and> blockno (bs ! b) = n))"
  by (induction c) auto

lemma bscan_cong:
  "\<forall>b\<in>set c. dev (bs' ! b) = dev (bs ! b) \<and> blockno (bs' ! b) = blockno (bs ! b) \<Longrightarrow>
   bscan bs' c d n = bscan bs c d n"
  by (induction c) auto

lemma bscan_upd_other:
  "v < length bs \<Longrightarrow> \<not> (dev x = d \<and> blockno x = n) \<Longrightarrow> bscan bs c d n = Some b \<Longrightarrow> b \<noteq> v \<Longrightarrow>
   bscan (bs[v := x]) c d n = Some b"
  by (induction c) (auto simp: nth_list_update split: if_splits)

lemma bscan_remove:
  "bscan bs c d n = Some b \<Longrightarrow> q < length c \<Longrightarrow> c ! q \<noteq> b \<Longrightarrow>
   bscan bs (take q c @ drop (Suc q) c) d n = Some b"
proof (induction c arbitrary: q)
  case Nil
  then show ?case by simp
next
  case (Cons a c)
  show ?case
  proof (cases q)
    case 0
    then show ?thesis using Cons.prems by (auto split: if_splits)
  next
    case (Suc q')
    then show ?thesis using Cons by (auto split: if_splits)
  qed
qed

lemma bscan_upd_self:
  "v < length bs \<Longrightarrow> dev x = d \<Longrightarrow> blockno x = n \<Longrightarrow> bscan bs c d n = None \<Longrightarrow> v \<in> set c \<Longrightarrow>
   bscan (bs[v := x]) c d n = Some v"
  by (induction c) (auto simp: nth_list_update split: if_splits)

lemma findable_unique:
  assumes "findable s H" and "b \<in> H" and "c \<in> H"
    and "dev (buf s ! b) = dev (buf s ! c)" and "blockno (buf s ! b) = blockno (buf s ! c)"
  shows "b = c"
proof -
  have 1: "bscan (buf s) (bufmap s ! unat (BUFMAP_HASH (dev (buf s ! b)) (blockno (buf s ! b))))
              (dev (buf s ! b)) (blockno (buf s ! b)) = Some b"
    using assms(1,2) by (simp add: findable_def)
  have 2: "bscan (buf s) (bufmap s ! unat (BUFMAP_HASH (dev (buf s ! c)) (blockno (buf s ! c))))
              (dev (buf s ! c)) (blockno (buf s ! c)) = Some c"
    using assms(1,3) by (simp add: findable_def)
  have "Some b = Some c" using 1[unfolded assms(4) assms(5)] 2 by (rule trans[OF sym])
  then show ?thesis by (rule option.inject[THEN iffD1])
qed

lemma set_remove_nth:
  "q < length c \<Longrightarrow> x \<in> set c \<Longrightarrow> x \<noteq> c ! q \<Longrightarrow> x \<in> set (take q c @ drop (Suc q) c)"
proof -
  assume q: "q < length c" and x: "x \<in> set c" "x \<noteq> c ! q"
  have "c = take q c @ c ! q # drop (Suc q) c" using q by (rule id_take_nth_drop)
  then have "set c = set (take q c) \<union> {c ! q} \<union> set (drop (Suc q) c)"
    by (metis list.simps(15) set_append Un_assoc insert_is_Un)
  then show ?thesis using x by auto
qed

lemma set_remove_nth_subset: "set (take q c @ drop (Suc q) c) \<subseteq> set c"
  using set_take_subset[of q c] set_drop_subset[of "Suc q" c] by auto

lemma map_upd_same: "f y = f (xs ! c) \<Longrightarrow> map f (xs[c := y]) = map f xs"
  by (rule nth_equalityI) (auto simp: upd_nth_cases)

lemma inv_frame:
  assumes inv: "bc_inv s H" and bm: "bufmap s' = bufmap s" and len: "length (buf s') = length (buf s)"
    and fr: "\<forall>b<length (buf s). dev (buf s' ! b) = dev (buf s ! b) \<and>
               blockno (buf s' ! b) = blockno (buf s ! b) \<and>
               (refcnt (buf s' ! b) \<noteq> 0 \<longrightarrow> refcnt (buf s ! b) \<noteq> 0 \<or> b \<in> H)"
  shows "bc_inv s' H"
proof -
  have wf: "wf_bcache s" and fi: "findable s H"
    and rf: "\<forall>b<length (buf s). refcnt (buf s ! b) \<noteq> 0 \<longrightarrow> b \<in> H"
    using inv by (simp_all add: bc_inv_def)
  have wf': "wf_bcache s'" using wf bm len by (simp add: wf_bcache_def)
  have sc: "bscan (buf s') (bufmap s ! unat (BUFMAP_HASH d n)) d n
          = bscan (buf s) (bufmap s ! unat (BUFMAP_HASH d n)) d n" for d n
  proof (rule bscan_cong, rule ballI)
    fix b assume "b \<in> set (bufmap s ! unat (BUFMAP_HASH d n))"
    then have "b < length (buf s)" using wf hash_less[of d n] by (auto simp: wf_bcache_def)
    then show "dev (buf s' ! b) = dev (buf s ! b) \<and> blockno (buf s' ! b) = blockno (buf s ! b)"
      using fr by simp
  qed
  have "findable s' H"
    unfolding findable_def using fi fr by (simp add: bm len sc findable_def)
  moreover have "\<forall>b<length (buf s'). refcnt (buf s' ! b) \<noteq> 0 \<longrightarrow> b \<in> H"
    using rf fr len by auto
  ultimately show ?thesis using wf' by (simp add: bc_inv_def)
qed

lemma inv_mono: "bc_inv s H \<Longrightarrow> b \<in> H \<Longrightarrow> bc_inv s (insert b H)"
  by (simp add: insert_absorb)

lemma inv_hit:
  assumes inv: "bc_inv s H"
    and hit: "bscan (buf s) (bufmap s ! unat (BUFMAP_HASH d n)) d n = Some b"
  shows "bc_inv (refcnt_inc b s) (insert b H)"
proof -
  have wf: "wf_bcache s" and fi: "findable s H"
    and rf: "\<forall>b<length (buf s). refcnt (buf s ! b) \<noteq> 0 \<longrightarrow> b \<in> H"
    using inv by (simp_all add: bc_inv_def)
  note bS = bscan_Some[OF hit]
  have bl: "b < length (buf s)" using bS wf hash_less[of d n] by (auto simp: wf_bcache_def)
  let ?s' = "refcnt_inc b s"
  have wf': "wf_bcache ?s'" using wf by (simp add: wf_bcache_def refcnt_inc_def)
  have sc: "bscan (buf ?s') c d' n' = bscan (buf s) c d' n'" for c d' n'
    by (rule bscan_cong) (auto simp: refcnt_inc_def upd_nth_cases)
  have fp: "dev (buf ?s' ! c) = dev (buf s ! c)" "blockno (buf ?s' ! c) = blockno (buf s ! c)" for c
    by (simp_all add: refcnt_inc_def upd_nth_cases)
  have "findable ?s' (insert b H)"
    unfolding findable_def
  proof (intro ballI)
    fix c assume c: "c \<in> insert b H"
    have bm: "bufmap ?s' = bufmap s" by (simp add: refcnt_inc_def)
    have ln: "length (buf ?s') = length (buf s)" by (simp add: refcnt_inc_def)
    show "c < length (buf ?s') \<and>
          bscan (buf ?s') (bufmap ?s' ! unat (BUFMAP_HASH (dev (buf ?s' ! c)) (blockno (buf ?s' ! c))))
              (dev (buf ?s' ! c)) (blockno (buf ?s' ! c)) = Some c"
    proof (cases "c = b")
      case True
      then show ?thesis unfolding sc fp bm ln using hit bS bl by simp
    next
      case False
      then have "c \<in> H" using c by simp
      then show ?thesis unfolding sc fp bm ln using fi by (simp add: findable_def)
    qed
  qed
  moreover have "\<forall>c<length (buf ?s'). refcnt (buf ?s' ! c) \<noteq> 0 \<longrightarrow> c \<in> insert b H"
    using rf by (auto simp: refcnt_inc_def upd_nth_cases)
  ultimately show ?thesis using wf' by (simp add: bc_inv_def)
qed

lemma install_bufmap_nth:
  assumes "length (bufmap s) = NBUFMAP_BUCKET" and "j < NBUFMAP_BUCKET"
  shows "bufmap (install i q d n s) ! j =
     (if i = unat (BUFMAP_HASH d n) then bufmap s ! j
      else if j = unat (BUFMAP_HASH d n) then bufmap s ! i ! q # bufmap s ! j
      else if j = i then take q (bufmap s ! i) @ drop (Suc q) (bufmap s ! i)
      else bufmap s ! j)"
  using assms hash_less[of d n] by (simp add: install_def Let_def nth_list_update)

lemma install_wf:
  assumes wf: "wf_bcache s" and i: "i < NBUFMAP_BUCKET" and q: "q < length (bufmap s ! i)"
  shows "wf_bcache (install i q d n s)"
proof -
  let ?key = "unat (BUFMAP_HASH d n)"
  let ?v = "bufmap s ! i ! q"
  let ?s' = "install i q d n s"
  have len: "length (bufmap s) = NBUFMAP_BUCKET" using wf by (simp add: wf_bcache_def)
  have rng: "\<And>j b. j < NBUFMAP_BUCKET \<Longrightarrow> b \<in> set (bufmap s ! j) \<Longrightarrow> b < length (buf s)"
    using wf by (simp add: wf_bcache_def)
  have cov: "\<And>b. b < length (buf s) \<Longrightarrow> \<exists>j<NBUFMAP_BUCKET. b \<in> set (bufmap s ! j)"
    using wf by (simp add: wf_bcache_def)
  have vi: "?v \<in> set (bufmap s ! i)" using q by simp
  have vl: "?v < length (buf s)" using rng[OF i vi] .
  have len': "length (bufmap ?s') = NBUFMAP_BUCKET" and bl': "length (buf ?s') = length (buf s)"
    using len by (simp_all add: install_def Let_def)
  have rng': "b < length (buf ?s')" if j: "j < NBUFMAP_BUCKET" and b: "b \<in> set (bufmap ?s' ! j)" for j b
  proof -
    have "b \<in> set (bufmap s ! j) \<or> b = ?v \<or> b \<in> set (bufmap s ! i)"
      using b set_remove_nth_subset[of q "bufmap s ! i"]
      by (auto simp: install_bufmap_nth[OF len j] split: if_splits)
    then show ?thesis using rng[OF j] rng[OF i] vl bl' by auto
  qed
  have cov': "\<exists>j<NBUFMAP_BUCKET. b \<in> set (bufmap ?s' ! j)" if b: "b < length (buf ?s')" for b
  proof (cases "i = ?key")
    case True
    then show ?thesis using cov[of b] b bl' by (simp add: install_def Let_def)
  next
    case False
    show ?thesis
    proof (cases "b = ?v")
      case True
      have "b \<in> set (bufmap ?s' ! ?key)"
        using False True by (simp add: install_bufmap_nth[OF len hash_less])
      then show ?thesis using hash_less by blast
    next
      case nv: False
      from cov[of b] b bl' obtain j where j: "j < NBUFMAP_BUCKET" "b \<in> set (bufmap s ! j)" by auto
      have "b \<in> set (bufmap ?s' ! j)"
        using j False nv set_remove_nth[OF q, of b]
        by (auto simp: install_bufmap_nth[OF len j(1)])
      then show ?thesis using j(1) by blast
    qed
  qed
  show ?thesis unfolding wf_bcache_def using len' rng' cov' by blast
qed

lemma install_findable:
  assumes wf: "wf_bcache s" and fi: "findable s H"
    and miss: "bscan (buf s) (bufmap s ! unat (BUFMAP_HASH d n)) d n = None"
    and i: "i < NBUFMAP_BUCKET" and q: "q < length (bufmap s ! i)"
  shows "findable (install i q d n s) (insert (bufmap s ! i ! q) H)"
proof -
  let ?key = "unat (BUFMAP_HASH d n)"
  let ?v = "bufmap s ! i ! q"
  let ?x = "(buf s ! ?v)\<lparr>dev := d, blockno := n, refcnt := 1, valid := 0\<rparr>"
  let ?rm = "take q (bufmap s ! i) @ drop (Suc q) (bufmap s ! i)"
  let ?s' = "install i q d n s"
  have len: "length (bufmap s) = NBUFMAP_BUCKET" using wf by (simp add: wf_bcache_def)
  have vi: "?v \<in> set (bufmap s ! i)" using q by simp
  have vl: "?v < length (buf s)" using wf i vi by (auto simp: wf_bcache_def)
  have bs': "buf ?s' = (buf s)[?v := ?x]" by (simp add: install_def Let_def)
  show ?thesis
    unfolding findable_def
  proof (intro ballI)
    fix b assume b: "b \<in> insert ?v H"
    show "b < length (buf ?s') \<and>
          bscan (buf ?s') (bufmap ?s' ! unat (BUFMAP_HASH (dev (buf ?s' ! b)) (blockno (buf ?s' ! b))))
              (dev (buf ?s' ! b)) (blockno (buf ?s' ! b)) = Some b"
    proof (cases "b = ?v")
      case True
      have fp: "dev (buf ?s' ! b) = d" "blockno (buf ?s' ! b) = n"
        using True vl by (simp_all add: bs')
      have "bscan (buf ?s') (bufmap ?s' ! ?key) d n = Some ?v"
      proof (cases "i = ?key")
        case True
        have "bscan ((buf s)[?v := ?x]) (bufmap s ! ?key) d n = Some ?v"
          using vl miss vi True by (intro bscan_upd_self) simp_all
        then show ?thesis unfolding bs' install_bufmap_nth[OF len hash_less] using True by simp
      next
        case False
        then show ?thesis unfolding bs' install_bufmap_nth[OF len hash_less] using vl by simp
      qed
      then show ?thesis using fp True vl by (simp add: bs')
    next
      case False
      let ?db = "dev (buf s ! b)" and ?nb = "blockno (buf s ! b)"
      let ?kb = "unat (BUFMAP_HASH ?db ?nb)"
      have bH: "b \<in> H" using b False by simp
      have eq: "buf ?s' ! b = buf s ! b" using False by (simp add: bs')
      have bl: "b < length (buf s)" using fi bH by (simp add: findable_def)
      have old: "bscan (buf s) (bufmap s ! ?kb) ?db ?nb = Some b"
        using fi bH by (simp add: findable_def)
      have nm: "\<not> (dev ?x = ?db \<and> blockno ?x = ?nb)"
      proof
        assume "dev ?x = ?db \<and> blockno ?x = ?nb"
        then have "d = ?db" "n = ?nb" by simp_all
        then show False using old miss by simp
      qed
      have kb: "?kb < NBUFMAP_BUCKET" by (rule hash_less)
      have up: "bscan ((buf s)[?v := ?x]) c ?db ?nb = Some b" if "bscan (buf s) c ?db ?nb = Some b" for c
        using vl nm that False by (rule bscan_upd_other)
      have "bscan (buf ?s') (bufmap ?s' ! ?kb) ?db ?nb = Some b"
      proof (cases "i = ?key")
        case True
        then show ?thesis unfolding bs' install_bufmap_nth[OF len kb] using up[OF old] by simp
      next
        case ik: False
        show ?thesis
        proof (cases "?kb = ?key")
          case True
          have "bscan ((buf s)[?v := ?x]) (?v # bufmap s ! ?kb) ?db ?nb = Some b"
            using up[OF old] nm vl by auto
          then show ?thesis unfolding bs' install_bufmap_nth[OF len kb] using ik True by simp
        next
          case nk: False
          show ?thesis
          proof (cases "?kb = i")
            case True
            have "bscan (buf s) ?rm ?db ?nb = Some b"
              using old q False True by (intro bscan_remove) simp_all
            from up[OF this] show ?thesis
              unfolding bs' install_bufmap_nth[OF len kb] using ik nk True by simp
          next
            case ni: False
            then show ?thesis unfolding bs' install_bufmap_nth[OF len kb] using up[OF old] ik nk
              by simp
          qed
        qed
      qed
      then show ?thesis using eq bl by (simp add: bs')
    qed
  qed
qed

lemma inv_install:
  assumes inv: "bc_inv s H"
    and miss: "bscan (buf s) (bufmap s ! unat (BUFMAP_HASH d n)) d n = None"
    and i: "i < NBUFMAP_BUCKET" and q: "q < length (bufmap s ! i)"
  shows "bc_inv (install i q d n s) (insert (bufmap s ! i ! q) H)"
proof -
  have wf: "wf_bcache s" and fi: "findable s H"
    and rf: "\<forall>b<length (buf s). refcnt (buf s ! b) \<noteq> 0 \<longrightarrow> b \<in> H"
    using inv by (simp_all add: bc_inv_def)
  have "\<forall>b<length (buf (install i q d n s)).
          refcnt (buf (install i q d n s) ! b) \<noteq> 0 \<longrightarrow> b \<in> insert (bufmap s ! i ! q) H"
    using rf by (auto simp: install_def Let_def upd_nth_cases)
  then show ?thesis
    using install_wf[OF wf i q, of d n] install_findable[OF wf fi miss i q]
    by (simp add: bc_inv_def)
qed

lemma acquiresleep_buf: "outcome_buf (acquiresleep p b s) = Some b"
  by (simp add: acquiresleep_def)

lemma inv_acquiresleep:
  assumes "bc_inv s H" and "outcome_state (acquiresleep p b s) = Some s'"
  shows "bc_inv s' H"
proof (rule inv_frame[OF assms(1)])
  show "bufmap s' = bufmap s" "length (buf s') = length (buf s)"
    using assms(2) by (auto simp: acquiresleep_def split: if_splits)
  show "\<forall>c<length (buf s). dev (buf s' ! c) = dev (buf s ! c) \<and>
               blockno (buf s' ! c) = blockno (buf s ! c) \<and>
               (refcnt (buf s' ! c) \<noteq> 0 \<longrightarrow> refcnt (buf s ! c) \<noteq> 0 \<or> c \<in> H)"
    using assms(2) by (auto simp: acquiresleep_def upd_nth_cases split: if_splits)
qed

lemma inv_bget_slow:
  assumes inv: "bc_inv s H" and out: "outcome_state (bget_slow p s d n) = Some s'"
    and ob: "outcome_buf (bget_slow p s d n) = Some b"
  shows "bc_inv s' (insert b H)"
proof (cases "bscan (buf s) (bufmap s ! unat (BUFMAP_HASH d n)) d n")
  case (Some c)
  then have g: "bget_slow p s d n = acquiresleep p c (refcnt_inc c s)" by (simp add: bget_slow_def)
  then have "b = c" using ob by (simp add: acquiresleep_buf)
  then show ?thesis using inv_acquiresleep[OF inv_hit[OF inv Some]] out g by simp
next
  case None
  have len: "length (bufmap s) = NBUFMAP_BUCKET" using inv by (simp add: bc_inv_def wf_bcache_def)
  from bget_slow_miss[OF len None, of p] out
  obtain i q where iq: "i < NBUFMAP_BUCKET" "q < length (bufmap s ! i)"
      "bget_slow p s d n = acquiresleep p (bufmap s ! i ! q) (install i q d n s)"
    by auto
  have "b = bufmap s ! i ! q" using ob iq(3) by (simp add: acquiresleep_buf)
  then show ?thesis using inv_acquiresleep[OF inv_install[OF inv None iq(1,2)]] out iq(3) by simp
qed

lemma inv_bget:
  assumes inv: "bc_inv s H" and out: "outcome_state (bget p s d n) = Some s'"
    and ob: "outcome_buf (bget p s d n) = Some b"
  shows "bc_inv s' (insert b H)"
proof (cases "bscan (buf s) (bufmap s ! unat (BUFMAP_HASH d n)) d n")
  case (Some c)
  then have g: "bget p s d n = acquiresleep p c (refcnt_inc c s)" by (simp add: bget_def)
  then have "b = c" using ob by (simp add: acquiresleep_buf)
  then show ?thesis using inv_acquiresleep[OF inv_hit[OF inv Some]] out g by simp
next
  case None
  then have "bget p s d n = bget_slow p s d n" by (simp add: bget_def)
  then show ?thesis using inv_bget_slow[OF inv] out ob by simp
qed

lemma inv_bread_fill: "bc_inv s H \<Longrightarrow> bc_inv (bread_fill b s) H"
  by (erule inv_frame)
     (auto simp: bread_fill_def virtio_disk_rw_def Let_def upd_nth_cases)

lemma inv_bread:
  assumes inv: "bc_inv s H" and out: "outcome_state (bread p s d n) = Some s'"
    and ob: "outcome_buf (bread p s d n) = Some b"
  shows "bc_inv s' (insert b H)"
proof (cases "bget p s d n")
  case (Panic e)
  then show ?thesis using out by (simp add: bread_def)
next
  case (Sleeps x)
  then show ?thesis using out ob inv_bget[OF inv, of p d n s' b]
    by (cases x) (simp add: bread_def)
next
  case (Returns x)
  obtain s1 c where x: "x = (s1, c)" by (cases x)
  have "b = c" using ob Returns x by (simp add: bread_def)
  then have "bc_inv s1 (insert b H)" using inv_bget[OF inv, of p d n s1 b] Returns x by simp
  then show ?thesis using out Returns x inv_bread_fill[of s1 "insert b H" c] by (simp add: bread_def)
qed

lemma inv_bwrite: "bc_inv s H \<Longrightarrow> bwrite p b s = Inr s' \<Longrightarrow> bc_inv s' H"
  by (erule inv_frame) (auto simp: bwrite_def virtio_disk_rw_def Let_def split: if_splits)

lemma inv_brelse: "bc_inv s H \<Longrightarrow> b \<in> H \<Longrightarrow> brelse p b s = Inr s' \<Longrightarrow> bc_inv s' H"
  by (erule inv_frame)
     (auto simp: brelse_def releasesleep_def refcnt_dec_def Let_def upd_nth_cases split: if_splits)

lemma inv_bpin: "bc_inv s H \<Longrightarrow> b \<in> H \<Longrightarrow> bc_inv (bpin b s) H"
  by (erule inv_frame) (auto simp: bpin_def refcnt_inc_def upd_nth_cases)

lemma inv_bunpin: "bc_inv s H \<Longrightarrow> b \<in> H \<Longrightarrow> bc_inv (bunpin b s) H"
  by (erule inv_frame) (auto simp: bunpin_def refcnt_dec_def upd_nth_cases)

lemma inv_binit: "bc_inv (binit (bss img)) {}"
  using wf_binit[of img] by (simp add: bc_inv_def findable_def binit_bss)

lemma reachable_inv: "reachable img s H \<Longrightarrow> bc_inv s H"
proof (induction rule: reachable.induct)
  case r_binit
  show ?case by (rule inv_binit)
next
  case (r_ticks s H)
  then show ?case by (elim inv_frame) simp_all
next
  case (r_bget s H p d n s' b)
  then show ?case using inv_bget by blast
next
  case (r_bget_slow s H p d n s' b)
  then show ?case using inv_bget_slow by blast
next
  case (r_bread s H p d n s' b)
  then show ?case using inv_bread by blast
next
  case (r_wakeup s H b p s')
  then have "bc_inv s' H" using inv_acquiresleep[of s H p b s'] by simp
  then show ?case by (rule inv_bread_fill)
next
  case (r_bwrite s H b p s')
  then show ?case using inv_bwrite by blast
next
  case (r_store s H b p x s')
  have "bc_inv (s\<lparr>buf := (buf s)[b := (buf s ! b)\<lparr>data := x\<rparr>]\<rparr>) H"
    using r_store.IH by (elim inv_frame) (auto simp: upd_nth_cases)
  then show ?case using r_store.hyps inv_bwrite by blast
next
  case (r_brelse s H b p s')
  then show ?case using inv_brelse by blast
next
  case (r_bpin s H b)
  then show ?case using inv_bpin by blast
next
  case (r_bunpin s H b)
  then show ?case using inv_bunpin by blast
qed

lemma bread_cold: "bread p (binit (bss img)) 1 7 = Returns (cold p img, NBUF - 1)"
  by (simp add: bread_def bget_cold bread_fill_def virtio_disk_rw_def)
     (simp add: cold_def NBUF_def)

text \<open>
  C1. In every state reached from \<open>binit\<close> by \<open>bget\<close>, \<open>bread\<close>, \<open>bwrite\<close>, \<open>brelse\<close>, \<open>bpin\<close>
  and \<open>bunpin\<close> in any order and number, no two different buffers with a non-zero \<open>refcnt\<close>
  carry the same \<open>(dev, blockno)\<close>. The part of \<open>bget\<close> that runs under \<open>eviction_lock\<close> is a
  step of its own, so it may start in a state that other calls have changed since the
  first lookup missed; when the block has been installed in the meantime, its rescan finds
  that buffer and hands it out, and neither a chain nor any fingerprint changes: no second
  buffer is installed.
\<close>

theorem one_buffer_per_block:
  assumes "reachable img s H"
  shows "(\<forall>b<length (buf s). \<forall>c<length (buf s).
            refcnt (buf s ! b) \<noteq> 0 \<and> refcnt (buf s ! c) \<noteq> 0 \<and>
            dev (buf s ! b) = dev (buf s ! c) \<and> blockno (buf s ! b) = blockno (buf s ! c)
            \<longrightarrow> b = c) \<and>
         (\<forall>p d n b. bscan (buf s) (bufmap s ! unat (BUFMAP_HASH d n)) d n = Some b \<longrightarrow>
            (\<exists>s'. outcome_state (bget_slow p s d n) = Some s' \<and>
                  outcome_buf (bget_slow p s d n) = Some b \<and>
                  bufmap s' = bufmap s \<and>
                  map dev (buf s') = map dev (buf s) \<and>
                  map blockno (buf s') = map blockno (buf s)))"
proof -
  have inv: "bc_inv s H" using assms by (rule reachable_inv)
  then have fi: "findable s H"
    and rf: "\<forall>b<length (buf s). refcnt (buf s ! b) \<noteq> 0 \<longrightarrow> b \<in> H"
    by (simp_all add: bc_inv_def)
  have 1: "\<forall>b<length (buf s). \<forall>c<length (buf s).
            refcnt (buf s ! b) \<noteq> 0 \<and> refcnt (buf s ! c) \<noteq> 0 \<and>
            dev (buf s ! b) = dev (buf s ! c) \<and> blockno (buf s ! b) = blockno (buf s ! c)
            \<longrightarrow> b = c"
    using findable_unique[OF fi] rf by blast
  have 2: "\<exists>s'. outcome_state (bget_slow p s d n) = Some s' \<and>
                  outcome_buf (bget_slow p s d n) = Some b \<and>
                  bufmap s' = bufmap s \<and>
                  map dev (buf s') = map dev (buf s) \<and>
                  map blockno (buf s') = map blockno (buf s)"
    if hit: "bscan (buf s) (bufmap s ! unat (BUFMAP_HASH d n)) d n = Some b" for p d n b
  proof -
    have g: "bget_slow p s d n = acquiresleep p b (refcnt_inc b s)"
      using hit by (simp add: bget_slow_def)
    show ?thesis
      unfolding g by (cases "lock (buf (refcnt_inc b s) ! b) = None")
        (simp_all add: acquiresleep_def refcnt_inc_def map_upd_same upd_nth_cases)
  qed
  show ?thesis using 1 2 by blast
qed

text \<open>
  Witness for C1: the state after the first \<open>bread(1, 7)\<close> is reachable; there the block
  is cached, and the locked part of \<open>bget\<close> run by another process finds it again.
\<close>

theorem one_buffer_per_block_witness:
  "reachable blank (cold 1 blank) {NBUF - 1} \<and>
   bscan (buf (cold 1 blank)) (bufmap (cold 1 blank) ! unat (BUFMAP_HASH 1 7)) 1 7 = Some (NBUF - 1) \<and>
   outcome_buf (bget_slow 2 (cold 1 blank) 1 7) = Some (NBUF - 1)"
proof -
  have r: "reachable blank (cold 1 blank) {NBUF - 1}"
    using r_bread[OF r_binit, of 1 blank 1 7 "cold 1 blank" "NBUF - 1"] by (simp add: bread_cold)
  have h: "bscan (buf (cold 1 blank)) (bufmap (cold 1 blank) ! unat (BUFMAP_HASH 1 7)) 1 7 = Some (NBUF - 1)"
    by (simp add: cold_def hash_1_7 NBUF_def NBUFMAP_BUCKET_def)
  show ?thesis using one_buffer_per_block[OF r] r h by blast
qed

section \<open>Properties of the buffer cache: the warm hit\<close>

lemma bget_Returns_cases:
  assumes wf: "wf_bcache s" and g: "bget p s d n = Returns (s0, b)"
  shows "b < length (buf s) \<and> lock (buf s0 ! b) = Some p \<and>
         bscan (buf s0) (bufmap s0 ! unat (BUFMAP_HASH d n)) d n = Some b \<and>
         length (buf s0) = length (buf s) \<and> vdisk s0 = vdisk s \<and>
         dev (buf s0 ! b) = d \<and> blockno (buf s0 ! b) = n \<and>
         (valid (buf s0 ! b) = 0 \<or>
          (valid (buf s0 ! b) = valid (buf s ! b) \<and> data (buf s0 ! b) = data (buf s ! b) \<and>
           dev (buf s ! b) = d \<and> blockno (buf s ! b) = n))"
proof (cases "bscan (buf s) (bufmap s ! unat (BUFMAP_HASH d n)) d n")
  case (Some c)
  note cS = bscan_Some[OF Some]
  have cl: "c < length (buf s)" using cS wf hash_less[of d n] by (auto simp: wf_bcache_def)
  have a: "acquiresleep p c (refcnt_inc c s) = Returns (s0, b)" using g Some by (simp add: bget_def)
  then have bc: "b = c"
    and s0: "s0 = (refcnt_inc c s)\<lparr>buf := (buf (refcnt_inc c s))[c := (buf (refcnt_inc c s) ! c)\<lparr>lock := Some p\<rparr>]\<rparr>"
    by (auto simp: acquiresleep_def split: if_splits)
  have sc: "bscan (buf s0) (bufmap s ! unat (BUFMAP_HASH d n)) d n
          = bscan (buf s) (bufmap s ! unat (BUFMAP_HASH d n)) d n"
    by (rule bscan_cong) (auto simp: s0 refcnt_inc_def upd_nth_cases)
  have bm: "bufmap s0 = bufmap s" by (simp add: s0 refcnt_inc_def)
  show ?thesis
    unfolding bm sc using Some cS cl by (simp add: bc) (simp add: s0 refcnt_inc_def)
next
  case None
  have len: "length (bufmap s) = NBUFMAP_BUCKET" using wf by (simp add: wf_bcache_def)
  have gs: "bget_slow p s d n = Returns (s0, b)" using g None by (simp add: bget_def)
  from bget_slow_miss[OF len None, of p] gs
  obtain i q where iq: "i < NBUFMAP_BUCKET" "q < length (bufmap s ! i)"
      "acquiresleep p (bufmap s ! i ! q) (install i q d n s) = Returns (s0, b)"
    by auto
  let ?v = "bufmap s ! i ! q" and ?s1 = "install i q d n s"
  have vl: "?v < length (buf s)" using wf iq(1,2) by (auto simp: wf_bcache_def)
  have bv: "b = ?v" and s0: "s0 = ?s1\<lparr>buf := (buf ?s1)[?v := (buf ?s1 ! ?v)\<lparr>lock := Some p\<rparr>]\<rparr>"
    using iq(3) by (auto simp: acquiresleep_def split: if_splits)
  have "findable ?s1 (insert ?v {})"
    by (rule install_findable[OF wf _ None iq(1,2)]) (simp add: findable_def)
  then have f1: "bscan (buf ?s1) (bufmap ?s1 ! unat (BUFMAP_HASH (dev (buf ?s1 ! ?v)) (blockno (buf ?s1 ! ?v))))
              (dev (buf ?s1 ! ?v)) (blockno (buf ?s1 ! ?v)) = Some ?v"
    by (simp add: findable_def)
  have ib: "buf ?s1 ! ?v = (buf s ! ?v)\<lparr>dev := d, blockno := n, refcnt := 1, valid := 0\<rparr>"
    using vl by (simp add: install_def Let_def)
  have l1: "length (buf ?s1) = length (buf s)" by (simp add: install_def Let_def)
  have f2: "bscan (buf ?s1) (bufmap ?s1 ! unat (BUFMAP_HASH d n)) d n = Some ?v"
    using f1 by (simp add: ib)
  have sc: "bscan (buf s0) (bufmap ?s1 ! unat (BUFMAP_HASH d n)) d n
          = bscan (buf ?s1) (bufmap ?s1 ! unat (BUFMAP_HASH d n)) d n"
    by (rule bscan_cong) (auto simp: s0 upd_nth_cases)
  have bm: "bufmap s0 = bufmap ?s1" by (simp add: s0)
  have "valid (buf s0 ! ?v) = 0" "lock (buf s0 ! ?v) = Some p" "dev (buf s0 ! ?v) = d"
    "blockno (buf s0 ! ?v) = n" "length (buf s0) = length (buf s)" "vdisk s0 = vdisk s"
    using vl l1 by (simp_all add: s0 ib) (simp_all add: install_def Let_def)
  then show ?thesis unfolding bm sc using f2 vl by (simp add: bv)
qed

lemma inv_poke: "bc_inv s H \<Longrightarrow> bc_inv (poke b x s) H"
  by (erule inv_frame) (auto simp: poke_def upd_nth_cases)

lemma trace_inv: "trace W P s0 H0 s H \<Longrightarrow> bc_inv s0 H0 \<Longrightarrow> bc_inv s H"
proof (induction rule: trace.induct)
  case t_start
  then show ?case .
next
  case (t_ticks s H)
  then have "bc_inv s H" by simp
  then show ?case by (elim inv_frame) simp_all
next
  case (t_bget s H p d n s' b)
  then show ?case using inv_bget by blast
next
  case (t_bget_slow s H p d n s' b)
  then show ?case using inv_bget_slow by blast
next
  case (t_bread s H p d n s' b)
  then show ?case using inv_bread by blast
next
  case (t_wakeup s H b p s')
  then have "bc_inv s' H" using inv_acquiresleep[of s H p b s'] by simp
  then show ?case by (rule inv_bread_fill)
next
  case (t_bwrite s H b p s')
  then show ?case using inv_bwrite by blast
next
  case (t_store s H b p x s')
  then have "bc_inv (poke b x s) H" using inv_poke by blast
  then show ?case using t_store.hyps inv_bwrite by blast
next
  case (t_poke s H b p x)
  then show ?case using inv_poke by blast
next
  case (t_brelse s H b p s')
  then show ?case using inv_brelse by blast
next
  case (t_bpin s H b)
  then show ?case using inv_bpin by blast
next
  case (t_bunpin s H b)
  then show ?case using inv_bunpin by blast
qed

lemma cw_frame:
  assumes cw: "cw s H W" and len: "length (buf s') = length (buf s)" and vd: "vdisk s' = vdisk s"
    and fr: "\<forall>c<length (buf s). valid (buf s' ! c) \<noteq> 0 \<longrightarrow>
               valid (buf s ! c) \<noteq> 0 \<and> data (buf s' ! c) = data (buf s ! c) \<and>
               dev (buf s' ! c) = dev (buf s ! c) \<and> blockno (buf s' ! c) = blockno (buf s ! c)"
    and sub: "H \<subseteq> H'"
  shows "cw s' H' W"
  unfolding cw_def
proof (intro allI impI)
  fix b assume b: "b < length (buf s')" "valid (buf s' ! b) \<noteq> 0"
  then have bl: "b < length (buf s)" using len by simp
  from fr bl b(2) have e: "valid (buf s ! b) \<noteq> 0" "data (buf s' ! b) = data (buf s ! b)"
     "dev (buf s' ! b) = dev (buf s ! b)" "blockno (buf s' ! b) = blockno (buf s ! b)" by simp_all
  from cw bl e(1) have "b \<in> H" "b \<in> W \<longrightarrow> data (buf s ! b) = vdisk s (dev (buf s ! b), blockno (buf s ! b))"
    by (simp_all add: cw_def)
  then show "b \<in> H' \<and> (b \<in> W \<longrightarrow> data (buf s' ! b) = vdisk s' (dev (buf s' ! b), blockno (buf s' ! b)))"
    using sub e vd by auto
qed

lemma cw_acquiresleep: "cw s H W \<Longrightarrow> outcome_state (acquiresleep p b s) = Some s' \<Longrightarrow> cw s' H W"
  by (erule cw_frame) (auto simp: acquiresleep_def upd_nth_cases split: if_splits)

lemma cw_hit: "cw s H W \<Longrightarrow> cw (refcnt_inc b s) (insert b H) W"
  by (erule cw_frame) (auto simp: refcnt_inc_def upd_nth_cases)

lemma cw_install: "cw s H W \<Longrightarrow> cw (install i q d n s) (insert (bufmap s ! i ! q) H) W"
  by (erule cw_frame) (auto simp: install_def Let_def upd_nth_cases)

lemma cw_fill:
  assumes "cw s H W" and "b \<in> H"
  shows "cw (bread_fill b s) H W"
proof (cases "valid (buf s ! b) = 0 \<and> b < length (buf s)")
  case False
  have "cw (bread_fill b s) H W"
    using assms(1)
    by (rule cw_frame) (use False in \<open>auto simp: bread_fill_def virtio_disk_rw_def Let_def upd_nth_cases\<close>)
  then show ?thesis .
next
  case True
  then show ?thesis using assms
    by (auto simp: cw_def bread_fill_def virtio_disk_rw_def Let_def upd_nth_cases)
qed

lemma cw_bget_slow:
  assumes len: "length (bufmap s) = NBUFMAP_BUCKET" and cw: "cw s H W"
    and out: "outcome_state (bget_slow p s d n) = Some s'"
    and ob: "outcome_buf (bget_slow p s d n) = Some b"
  shows "cw s' (insert b H) W"
proof (cases "bscan (buf s) (bufmap s ! unat (BUFMAP_HASH d n)) d n")
  case (Some c)
  then have g: "bget_slow p s d n = acquiresleep p c (refcnt_inc c s)" by (simp add: bget_slow_def)
  then have "b = c" using ob by (simp add: acquiresleep_buf)
  then show ?thesis using cw_acquiresleep[OF cw_hit[OF cw, of c]] out g by simp
next
  case None
  from bget_slow_miss[OF len None, of p] out
  obtain i q where iq: "bget_slow p s d n = acquiresleep p (bufmap s ! i ! q) (install i q d n s)"
    by auto
  have "b = bufmap s ! i ! q" using ob iq by (simp add: acquiresleep_buf)
  then show ?thesis using cw_acquiresleep[OF cw_install[OF cw, of i q d n]] out iq by simp
qed

lemma cw_bget:
  assumes len: "length (bufmap s) = NBUFMAP_BUCKET" and cw: "cw s H W"
    and out: "outcome_state (bget p s d n) = Some s'"
    and ob: "outcome_buf (bget p s d n) = Some b"
  shows "cw s' (insert b H) W"
proof (cases "bscan (buf s) (bufmap s ! unat (BUFMAP_HASH d n)) d n")
  case (Some c)
  then have g: "bget p s d n = acquiresleep p c (refcnt_inc c s)" by (simp add: bget_def)
  then have "b = c" using ob by (simp add: acquiresleep_buf)
  then show ?thesis using cw_acquiresleep[OF cw_hit[OF cw, of c]] out g by simp
next
  case None
  then have "bget p s d n = bget_slow p s d n" by (simp add: bget_def)
  then show ?thesis using cw_bget_slow[OF len cw] out ob by simp
qed

lemma cw_bread:
  assumes len: "length (bufmap s) = NBUFMAP_BUCKET" and cw: "cw s H W"
    and out: "outcome_state (bread p s d n) = Some s'"
    and ob: "outcome_buf (bread p s d n) = Some b"
  shows "cw s' (insert b H) W"
proof (cases "bget p s d n")
  case (Panic e)
  then show ?thesis using out by (simp add: bread_def)
next
  case (Sleeps x)
  then show ?thesis using out ob cw_bget[OF len cw, of p d n s' b]
    by (cases x) (simp add: bread_def)
next
  case (Returns x)
  obtain s1 c where x: "x = (s1, c)" by (cases x)
  have bc: "b = c" using ob Returns x by (simp add: bread_def)
  then have "cw s1 (insert b H) W" using cw_bget[OF len cw, of p d n s1 b] Returns x by simp
  then have "cw (bread_fill c s1) (insert b H) W" using bc by (intro cw_fill) simp_all
  then show ?thesis using out Returns x by (simp add: bread_def)
qed

lemma cw_bwrite:
  assumes fi: "findable s H" and cw: "cw s H W" and b: "b \<in> H" and w: "bwrite p b s = Inr s'"
  shows "cw s' H W"
proof -
  let ?d = "dev (buf s ! b)" and ?n = "blockno (buf s ! b)"
  have s': "s' = s\<lparr>vdisk := (vdisk s)((?d, ?n) := data (buf s ! b)), vlog := vlog s @ [(True, ?d, ?n)]\<rparr>"
    using w by (auto simp: bwrite_def virtio_disk_rw_def Let_def split: if_splits)
  have "c \<in> H \<and> (c \<in> W \<longrightarrow> data (buf s ! c) = vdisk s' (dev (buf s ! c), blockno (buf s ! c)))"
    if c: "c < length (buf s)" "valid (buf s ! c) \<noteq> 0" for c
  proof (cases "dev (buf s ! c) = ?d \<and> blockno (buf s ! c) = ?n")
    case True
    have cH: "c \<in> H" using cw c by (simp add: cw_def)
    then have "c = b" using findable_unique[OF fi _ b, of c] True by simp
    then show ?thesis using cH by (simp add: s')
  next
    case False
    then have "vdisk s' (dev (buf s ! c), blockno (buf s ! c)) = vdisk s (dev (buf s ! c), blockno (buf s ! c))"
      by (auto simp: s')
    then show ?thesis using cw c by (simp add: cw_def)
  qed
  then show ?thesis by (simp add: cw_def) (simp add: s')
qed

lemma cw_store:
  assumes fi: "findable s H" and cw: "cw s H W" and b: "b \<in> H"
    and w: "bwrite p b (poke b x s) = Inr s'"
  shows "cw s' H W"
proof -
  let ?d = "dev (buf s ! b)" and ?n = "blockno (buf s ! b)"
  have bl: "b < length (buf s)" using fi b by (simp add: findable_def)
  have s': "s' = s\<lparr>buf := (buf s)[b := (buf s ! b)\<lparr>data := x\<rparr>],
                    vdisk := (vdisk s)((?d, ?n) := x), vlog := vlog s @ [(True, ?d, ?n)]\<rparr>"
    using w bl by (auto simp: poke_def bwrite_def virtio_disk_rw_def Let_def split: if_splits)
  have "c \<in> H \<and> (c \<in> W \<longrightarrow> data (buf s' ! c) = vdisk s' (dev (buf s' ! c), blockno (buf s' ! c)))"
    if c: "c < length (buf s)" "valid (buf s' ! c) \<noteq> 0" for c
  proof (cases "c = b")
    case True
    then show ?thesis using bl b by (simp add: s')
  next
    case False
    then have e: "buf s' ! c = buf s ! c" by (simp add: s')
    have cH: "c \<in> H" using cw c e by (simp add: cw_def)
    then have "\<not> (dev (buf s ! c) = ?d \<and> blockno (buf s ! c) = ?n)"
      using findable_unique[OF fi _ b, of c] False by auto
    then have "vdisk s' (dev (buf s ! c), blockno (buf s ! c)) = vdisk s (dev (buf s ! c), blockno (buf s ! c))"
      by (auto simp: s')
    then show ?thesis using cw c e cH by (simp add: cw_def)
  qed
  moreover have "length (buf s') = length (buf s)" by (simp add: s')
  ultimately show ?thesis by (simp add: cw_def)
qed

lemma cw_poke: "cw s H W \<Longrightarrow> b \<notin> W \<Longrightarrow> cw (poke b x s) H W"
  by (auto simp: cw_def poke_def upd_nth_cases)

lemma cw_brelse: "cw s H W \<Longrightarrow> brelse p b s = Inr s' \<Longrightarrow> cw s' H W"
  by (erule cw_frame)
     (auto simp: brelse_def releasesleep_def refcnt_dec_def Let_def upd_nth_cases split: if_splits)

lemma cw_bpin: "cw s H W \<Longrightarrow> cw (bpin b s) H W"
  by (erule cw_frame) (auto simp: bpin_def refcnt_inc_def upd_nth_cases)

lemma cw_bunpin: "cw s H W \<Longrightarrow> cw (bunpin b s) H W"
  by (erule cw_frame) (auto simp: bunpin_def refcnt_dec_def upd_nth_cases)

lemma trace_cw: "trace W P s0 H0 s H \<Longrightarrow> bc_inv s0 H0 \<Longrightarrow> cw s0 H0 W \<Longrightarrow> cw s H W"
proof (induction rule: trace.induct)
  case t_start
  then show ?case by simp
next
  case (t_ticks s H)
  then have "cw s H W" by simp
  then show ?case by (elim cw_frame) simp_all
next
  case (t_bget s H p d n s' b)
  have "length (bufmap s) = NBUFMAP_BUCKET"
    using trace_inv[OF t_bget.hyps(1) t_bget.prems(1)] by (simp add: bc_inv_def wf_bcache_def)
  then show ?case using t_bget cw_bget by blast
next
  case (t_bget_slow s H p d n s' b)
  have "length (bufmap s) = NBUFMAP_BUCKET"
    using trace_inv[OF t_bget_slow.hyps(1) t_bget_slow.prems(1)] by (simp add: bc_inv_def wf_bcache_def)
  then show ?case using t_bget_slow cw_bget_slow by blast
next
  case (t_bread s H p d n s' b)
  have "length (bufmap s) = NBUFMAP_BUCKET"
    using trace_inv[OF t_bread.hyps(1) t_bread.prems(1)] by (simp add: bc_inv_def wf_bcache_def)
  then show ?case using t_bread cw_bread by blast
next
  case (t_wakeup s H b p s')
  then have "cw s' H W" using cw_acquiresleep[of s H W p b s'] by simp
  then show ?case using t_wakeup.hyps(2) by (rule cw_fill)
next
  case (t_bwrite s H b p s')
  have "findable s H" using trace_inv[OF t_bwrite.hyps(1) t_bwrite.prems(1)] by (simp add: bc_inv_def)
  then show ?case using t_bwrite cw_bwrite by blast
next
  case (t_store s H b p x s')
  have "findable s H" using trace_inv[OF t_store.hyps(1) t_store.prems(1)] by (simp add: bc_inv_def)
  then show ?case using t_store cw_store by blast
next
  case (t_poke s H b p x)
  then show ?case using cw_poke by blast
next
  case (t_brelse s H b p s')
  then show ?case using cw_brelse by blast
next
  case (t_bpin s H b)
  then show ?case using cw_bpin by blast
next
  case (t_bunpin s H b)
  then show ?case using cw_bunpin by blast
qed

lemma resident_frame:
  assumes c: "resident s b d n" and bm: "bufmap s' = bufmap s" and len: "length (buf s') = length (buf s)"
    and fr: "\<forall>c. dev (buf s' ! c) = dev (buf s ! c) \<and> blockno (buf s' ! c) = blockno (buf s ! c)"
    and vb: "valid (buf s ! b) \<noteq> 0 \<longrightarrow> valid (buf s' ! b) \<noteq> 0"
  shows "resident s' b d n"
proof -
  have "bscan (buf s') (bufmap s ! unat (BUFMAP_HASH d n)) d n
      = bscan (buf s) (bufmap s ! unat (BUFMAP_HASH d n)) d n"
    by (rule bscan_cong) (simp add: fr)
  then show ?thesis using c vb by (simp add: resident_def bm len)
qed

lemma resident_acquiresleep:
  "resident s b d n \<Longrightarrow> outcome_state (acquiresleep p c s) = Some s' \<Longrightarrow> resident s' b d n"
  by (erule resident_frame) (auto simp: acquiresleep_def upd_nth_cases split: if_splits)

lemma resident_hit: "resident s b d n \<Longrightarrow> resident (refcnt_inc c s) b d n"
  by (erule resident_frame) (auto simp: refcnt_inc_def upd_nth_cases)

lemma resident_fill: "resident s b d n \<Longrightarrow> resident (bread_fill c s) b d n"
  by (erule resident_frame) (auto simp: bread_fill_def virtio_disk_rw_def Let_def upd_nth_cases)

lemma resident_install:
  assumes inv: "bc_inv s H" and b: "b \<in> H" and r: "resident s b d n"
    and miss: "bscan (buf s) (bufmap s ! unat (BUFMAP_HASH d' n')) d' n' = None"
    and i: "i < NBUFMAP_BUCKET" and q: "q < length (bufmap s ! i)"
    and ne: "bufmap s ! i ! q \<noteq> b"
  shows "resident (install i q d' n' s) b d n"
proof -
  let ?s1 = "install i q d' n' s"
  have wf: "wf_bcache s" and fi: "findable s H" using inv by (simp_all add: bc_inv_def)
  have bl: "b < length (buf s)" and sc: "bscan (buf s) (bufmap s ! unat (BUFMAP_HASH d n)) d n = Some b"
    and v: "valid (buf s ! b) \<noteq> 0" using r by (simp_all add: resident_def)
  have fp: "dev (buf s ! b) = d" "blockno (buf s ! b) = n" using bscan_Some[OF sc] by simp_all
  have e: "buf ?s1 ! b = buf s ! b" using ne by (simp add: install_def Let_def)
  have l1: "length (buf ?s1) = length (buf s)" by (simp add: install_def Let_def)
  have "findable ?s1 (insert (bufmap s ! i ! q) H)" by (rule install_findable[OF wf fi miss i q])
  then have "bscan (buf ?s1) (bufmap ?s1 ! unat (BUFMAP_HASH (dev (buf ?s1 ! b)) (blockno (buf ?s1 ! b))))
              (dev (buf ?s1 ! b)) (blockno (buf ?s1 ! b)) = Some b"
    using b by (simp add: findable_def)
  then have "bscan (buf ?s1) (bufmap ?s1 ! unat (BUFMAP_HASH d n)) d n = Some b"
    unfolding e fp .
  then show ?thesis using bl v by (simp add: resident_def l1 e)
qed

lemma resident_bget_slow:
  assumes inv: "bc_inv s H" and b: "b \<in> H" and r: "resident s b d n"
    and out: "outcome_state (bget_slow p s d' n') = Some s'"
    and ob: "outcome_buf (bget_slow p s d' n') = Some c"
    and ne: "bscan (buf s) (bufmap s ! unat (BUFMAP_HASH d' n')) d' n' \<noteq> None \<or> c \<noteq> b"
  shows "resident s' b d n"
proof (cases "bscan (buf s) (bufmap s ! unat (BUFMAP_HASH d' n')) d' n'")
  case (Some c')
  then have g: "bget_slow p s d' n' = acquiresleep p c' (refcnt_inc c' s)" by (simp add: bget_slow_def)
  show ?thesis using resident_acquiresleep[OF resident_hit[OF r, of c']] out g by simp
next
  case None
  have len: "length (bufmap s) = NBUFMAP_BUCKET" using inv by (simp add: bc_inv_def wf_bcache_def)
  from bget_slow_miss[OF len None, of p] out
  obtain i q where iq: "i < NBUFMAP_BUCKET" "q < length (bufmap s ! i)"
      "bget_slow p s d' n' = acquiresleep p (bufmap s ! i ! q) (install i q d' n' s)"
    by auto
  have "c = bufmap s ! i ! q" using ob iq(3) by (simp add: acquiresleep_buf)
  then have "bufmap s ! i ! q \<noteq> b" using ne None by simp
  from resident_install[OF inv b r None iq(1,2) this]
  show ?thesis using resident_acquiresleep out iq(3) by simp
qed

lemma resident_bget:
  assumes inv: "bc_inv s H" and b: "b \<in> H" and r: "resident s b d n"
    and out: "outcome_state (bget p s d' n') = Some s'"
    and ob: "outcome_buf (bget p s d' n') = Some c"
    and ne: "bscan (buf s) (bufmap s ! unat (BUFMAP_HASH d' n')) d' n' \<noteq> None \<or> c \<noteq> b"
  shows "resident s' b d n"
proof (cases "bscan (buf s) (bufmap s ! unat (BUFMAP_HASH d' n')) d' n'")
  case (Some c')
  then have g: "bget p s d' n' = acquiresleep p c' (refcnt_inc c' s)" by (simp add: bget_def)
  show ?thesis using resident_acquiresleep[OF resident_hit[OF r, of c']] out g by simp
next
  case None
  then have "bget p s d' n' = bget_slow p s d' n'" by (simp add: bget_def)
  then show ?thesis using resident_bget_slow[OF inv b r _ _ ne] out ob by simp
qed

lemma resident_bread:
  assumes inv: "bc_inv s H" and b: "b \<in> H" and r: "resident s b d n"
    and out: "outcome_state (bread p s d' n') = Some s'"
    and ob: "outcome_buf (bread p s d' n') = Some c"
    and ne: "bscan (buf s) (bufmap s ! unat (BUFMAP_HASH d' n')) d' n' \<noteq> None \<or> c \<noteq> b"
  shows "resident s' b d n"
proof (cases "bget p s d' n'")
  case (Panic e)
  then show ?thesis using out by (simp add: bread_def)
next
  case (Sleeps x)
  then show ?thesis using out ob resident_bget[OF inv b r _ _ ne, of p s']
    by (cases x) (simp add: bread_def)
next
  case (Returns x)
  obtain s1 c1 where x: "x = (s1, c1)" by (cases x)
  have bc: "c = c1" using ob Returns x by (simp add: bread_def)
  have "resident s1 b d n" using resident_bget[OF inv b r _ _ ne, of p s1] Returns x bc by simp
  then have "resident (bread_fill c1 s1) b d n" by (rule resident_fill)
  then show ?thesis using out Returns x by (simp add: bread_def)
qed

lemma resident_bwrite: "resident s b d n \<Longrightarrow> bwrite p c s = Inr s' \<Longrightarrow> resident s' b d n"
  by (erule resident_frame) (auto simp: bwrite_def virtio_disk_rw_def Let_def split: if_splits)

lemma resident_poke: "resident s b d n \<Longrightarrow> resident (poke c x s) b d n"
  by (erule resident_frame) (auto simp: poke_def upd_nth_cases)

lemma resident_brelse: "resident s b d n \<Longrightarrow> brelse p c s = Inr s' \<Longrightarrow> resident s' b d n"
  by (erule resident_frame)
     (auto simp: brelse_def releasesleep_def refcnt_dec_def Let_def upd_nth_cases split: if_splits)

lemma resident_bpin: "resident s b d n \<Longrightarrow> resident (bpin c s) b d n"
  by (erule resident_frame) (auto simp: bpin_def refcnt_inc_def upd_nth_cases)

lemma resident_bunpin: "resident s b d n \<Longrightarrow> resident (bunpin c s) b d n"
  by (erule resident_frame) (auto simp: bunpin_def refcnt_dec_def upd_nth_cases)

lemma trace_resident:
  "trace W P s0 H0 s H \<Longrightarrow> bc_inv s0 H0 \<Longrightarrow> b \<in> P \<Longrightarrow> b \<in> H0 \<Longrightarrow> resident s0 b d n \<Longrightarrow>
   resident s b d n \<and> b \<in> H"
proof (induction rule: trace.induct)
  case t_start
  then show ?case by simp
next
  case (t_ticks s H)
  then have "resident s b d n" "b \<in> H" by simp_all
  then show ?case by (auto elim: resident_frame)
next
  case (t_bget s H p d' n' s' c)
  have inv: "bc_inv s H" using trace_inv[OF t_bget.hyps(1) t_bget.prems(1)] .
  have r: "resident s b d n" and bH: "b \<in> H" using t_bget by simp_all
  have ne: "bscan (buf s) (bufmap s ! unat (BUFMAP_HASH d' n')) d' n' \<noteq> None \<or> c \<noteq> b"
    using t_bget.hyps(4) t_bget.prems(2) by auto
  show ?case using resident_bget[OF inv bH r t_bget.hyps(2,3) ne] bH by simp
next
  case (t_bget_slow s H p d' n' s' c)
  have inv: "bc_inv s H" using trace_inv[OF t_bget_slow.hyps(1) t_bget_slow.prems(1)] .
  have r: "resident s b d n" and bH: "b \<in> H" using t_bget_slow by simp_all
  have ne: "bscan (buf s) (bufmap s ! unat (BUFMAP_HASH d' n')) d' n' \<noteq> None \<or> c \<noteq> b"
    using t_bget_slow.hyps(4) t_bget_slow.prems(2) by auto
  show ?case using resident_bget_slow[OF inv bH r t_bget_slow.hyps(2,3) ne] bH by simp
next
  case (t_bread s H p d' n' s' c)
  have inv: "bc_inv s H" using trace_inv[OF t_bread.hyps(1) t_bread.prems(1)] .
  have r: "resident s b d n" and bH: "b \<in> H" using t_bread by simp_all
  have ne: "bscan (buf s) (bufmap s ! unat (BUFMAP_HASH d' n')) d' n' \<noteq> None \<or> c \<noteq> b"
    using t_bread.hyps(4) t_bread.prems(2) by auto
  show ?case using resident_bread[OF inv bH r t_bread.hyps(2,3) ne] bH by simp
next
  case (t_wakeup s H c p s')
  then have r: "resident s b d n" and bH: "b \<in> H" by simp_all
  have "resident s' b d n" using resident_acquiresleep[OF r, of p c s'] t_wakeup.hyps(3) by simp
  then show ?case using bH resident_fill by blast
next
  case (t_bwrite s H c p s')
  then show ?case using resident_bwrite by blast
next
  case (t_store s H c p x s')
  then have "resident (poke c x s) b d n" "b \<in> H" using resident_poke by blast+
  then show ?case using t_store.hyps(3) resident_bwrite by blast
next
  case (t_poke s H c p x)
  then show ?case using resident_poke by blast
next
  case (t_brelse s H c p s')
  then show ?case using resident_brelse by blast
next
  case (t_bpin s H c)
  then show ?case using resident_bpin by blast
next
  case (t_bunpin s H c)
  then show ?case using resident_bunpin by blast
qed

lemma resident_hit_again:
  assumes c: "resident t b d n" and l: "lock (buf t ! b) = None"
  shows "\<exists>t'. bread q t d n = Returns (t', b) \<and> valid (buf t' ! b) \<noteq> 0 \<and> vlog t' = vlog t \<and>
              vdisk t' = vdisk t \<and> data (buf t' ! b) = data (buf t ! b) \<and>
              dev (buf t ! b) = d \<and> blockno (buf t ! b) = n"
proof -
  have bl: "b < length (buf t)" and hit: "bscan (buf t) (bufmap t ! unat (BUFMAP_HASH d n)) d n = Some b"
    and v: "valid (buf t ! b) \<noteq> 0"
    using c by (simp_all add: resident_def)
  let ?t0 = "(refcnt_inc b t)\<lparr>buf := (buf (refcnt_inc b t))[b := (buf (refcnt_inc b t) ! b)\<lparr>lock := Some q\<rparr>]\<rparr>"
  have g: "bget q t d n = Returns (?t0, b)"
    using hit l bl by (simp add: bget_def acquiresleep_def refcnt_inc_def)
  have f: "bread_fill b ?t0 = ?t0"
    using v bl by (simp add: bread_fill_def refcnt_inc_def)
  have "bread q t d n = Returns (?t0, b)" by (simp add: bread_def g f)
  moreover have "valid (buf ?t0 ! b) \<noteq> 0" "vlog ?t0 = vlog t" "vdisk ?t0 = vdisk t"
    "data (buf ?t0 ! b) = data (buf t ! b)"
    using v bl by (simp_all add: refcnt_inc_def)
  ultimately show ?thesis using bscan_Some[OF hit] by auto
qed

lemma cw_binit: "cw (binit (bss img)) {} W"
  by (simp add: cw_def binit_bss)

lemma bread_resident:
  assumes wf: "wf_bcache s" and r1: "bread p s d n = Returns (s1, b)"
  shows "resident s1 b d n \<and> holdingsleep p b s1"
proof -
  obtain s0 where g: "bget p s d n = Returns (s0, b)" and s1: "s1 = bread_fill b s0"
    using r1 by (auto simp: bread_def split: outcome.splits)
  note c = bget_Returns_cases[OF wf g]
  have bl0: "b < length (buf s0)" using c by simp
  have fr1: "bufmap s1 = bufmap s0" "length (buf s1) = length (buf s0)"
    "\<forall>c. dev (buf s1 ! c) = dev (buf s0 ! c) \<and> blockno (buf s1 ! c) = blockno (buf s0 ! c)"
    "lock (buf s1 ! b) = lock (buf s0 ! b)"
    by (auto simp: s1 bread_fill_def virtio_disk_rw_def Let_def upd_nth_cases)
  have v1: "valid (buf s1 ! b) \<noteq> 0" using bl0 by (simp add: s1 bread_fill_def virtio_disk_rw_def Let_def)
  have "bscan (buf s1) (bufmap s0 ! unat (BUFMAP_HASH d n)) d n
        = bscan (buf s0) (bufmap s0 ! unat (BUFMAP_HASH d n)) d n"
    by (rule bscan_cong) (simp add: fr1)
  then have sc1: "bscan (buf s1) (bufmap s1 ! unat (BUFMAP_HASH d n)) d n = Some b"
    using c by (simp add: fr1)
  have "holdingsleep p b s1" using c fr1 by (simp add: holdingsleep_def)
  then show ?thesis using bl0 fr1 sc1 v1 by (simp add: resident_def)
qed

lemma brelse_frame_data:
  assumes "brelse p b s1 = Inr s2" and "b < length (buf s1)"
  shows "lock (buf s2 ! b) = None \<and> vlog s2 = vlog s1 \<and> data (buf s2 ! b) = data (buf s1 ! b)"
  using assms
  by (auto simp: brelse_def releasesleep_def refcnt_dec_def Let_def upd_nth_cases split: if_splits)

text \<open>
  C3, with the condition it needs. Take any run from \<open>binit\<close>, stores that are never
  written out included, and let \<open>bread(dev, blockno)\<close> return buffer \<open>b\<close>. The holder's
  \<open>brelse(b)\<close> succeeds and frees the sleep lock. A second \<open>bread(dev, blockno)\<close>, by any
  process, then returns the same buffer \<open>b\<close> with \<open>valid\<close> set and adds no request to the
  disk trace (no read is issued); the data it finds are the ones the buffer held when
  the first call returned. The same holds after any further run in which \<open>b\<close> is not
  evicted, from every state where the lock of \<open>b\<close> is free: same buffer, valid, no disk
  request, data as the buffer holds them. When the holders of \<open>b\<close> write through (each
  store into \<open>data\<close> is written out by \<open>bwrite\<close>), these data are the disk's current
  contents of the block: what the last \<open>bwrite\<close> of the block stored, or the initial
  image. That the block is still found in \<open>b\<close>, valid and equal to the disk follows
  from the steps of the run.
\<close>

theorem bread_warm_hit:
  assumes tr: "trace W {} (binit (bss img)) {} s H" and r1: "bread p s d n = Returns (s1, b)"
  shows "\<exists>s2. brelse p b s1 = Inr s2 \<and> lock (buf s2 ! b) = None \<and>
           (\<exists>s3. bread q s2 d n = Returns (s3, b) \<and> valid (buf s3 ! b) \<noteq> 0 \<and>
                 vlog s3 = vlog s1 \<and> data (buf s3 ! b) = data (buf s1 ! b) \<and>
                 (b \<in> W \<longrightarrow> data (buf s3 ! b) = vdisk s3 (d, n))) \<and>
           (\<forall>t H'. trace W {b} s2 (insert b H) t H' \<and> lock (buf t ! b) = None \<longrightarrow>
              (\<exists>t'. bread q t d n = Returns (t', b) \<and> valid (buf t' ! b) \<noteq> 0 \<and>
                    vlog t' = vlog t \<and> data (buf t' ! b) = data (buf t ! b) \<and>
                    (b \<in> W \<longrightarrow> data (buf t' ! b) = vdisk t' (d, n))))"
proof -
  have inv: "bc_inv s H" using trace_inv[OF tr inv_binit] .
  have cw: "cw s H W" using trace_cw[OF tr inv_binit cw_binit] .
  have wf: "wf_bcache s" using inv by (simp add: bc_inv_def)
  have o: "outcome_state (bread p s d n) = Some s1" "outcome_buf (bread p s d n) = Some b"
    using r1 by simp_all
  have inv1: "bc_inv s1 (insert b H)" using inv_bread[OF inv o] .
  have cw1: "cw s1 (insert b H) W"
    using cw_bread[OF _ cw o] wf by (simp add: wf_bcache_def)
  have res1: "resident s1 b d n" and h1: "holdingsleep p b s1"
    using bread_resident[OF wf r1] by simp_all
  obtain s2 where s2: "brelse p b s1 = Inr s2" using h1 by (simp add: brelse_def Let_def)
  have bl1: "b < length (buf s1)" using res1 by (simp add: resident_def)
  note e2 = brelse_frame_data[OF s2 bl1]
  have inv2: "bc_inv s2 (insert b H)" using inv_brelse[OF inv1 _ s2] by simp
  have cw2: "cw s2 (insert b H) W" using cw_brelse[OF cw1 s2] .
  have res2: "resident s2 b d n" using resident_brelse[OF res1 s2] .
  have B: "\<exists>t'. bread q t d n = Returns (t', b) \<and> valid (buf t' ! b) \<noteq> 0 \<and>
                    vlog t' = vlog t \<and> data (buf t' ! b) = data (buf t ! b) \<and>
                    (b \<in> W \<longrightarrow> data (buf t' ! b) = vdisk t' (d, n))"
    if t: "trace W {b} s2 (insert b H) t H'" and l: "lock (buf t ! b) = None" for t H'
  proof -
    have rt: "resident t b d n" using trace_resident[OF t inv2 _ _ res2] by simp
    have cwt: "cw t H' W" using trace_cw[OF t inv2 cw2] .
    from resident_hit_again[OF rt l, of q] obtain t' where t':
      "bread q t d n = Returns (t', b)" "valid (buf t' ! b) \<noteq> 0" "vlog t' = vlog t"
      "vdisk t' = vdisk t" "data (buf t' ! b) = data (buf t ! b)"
      "dev (buf t ! b) = d" "blockno (buf t ! b) = n" by blast
    have "data (buf t ! b) = vdisk t (d, n)" if "b \<in> W"
      using cwt rt that t'(6,7) by (auto simp: cw_def resident_def)
    then show ?thesis using t' by auto
  qed
  have l2: "lock (buf s2 ! b) = None" using e2 by simp
  have "trace W {b} s2 (insert b H) s2 (insert b H)" by (rule t_start)
  from B[OF this l2] obtain s3 where s3: "bread q s2 d n = Returns (s3, b)"
     "valid (buf s3 ! b) \<noteq> 0" "vlog s3 = vlog s2" "data (buf s3 ! b) = data (buf s2 ! b)"
     "b \<in> W \<longrightarrow> data (buf s3 ! b) = vdisk s3 (d, n)" by blast
  have A: "\<exists>s3. bread q s2 d n = Returns (s3, b) \<and> valid (buf s3 ! b) \<noteq> 0 \<and>
                 vlog s3 = vlog s1 \<and> data (buf s3 ! b) = data (buf s1 ! b) \<and>
                 (b \<in> W \<longrightarrow> data (buf s3 ! b) = vdisk s3 (d, n))"
    using s3 e2 by auto
  show ?thesis using s2 e2 A B by blast
qed

text \<open>
  Witness for C3: \<open>bread(1, 7)\<close> right after \<open>binit\<close> with every holder writing through,
  release, and \<open>bread(1, 7)\<close> again by another process, at once and after a clock tick;
  the disk trace still holds the single read of the first call.
\<close>

theorem bread_warm_hit_witness:
  "trace UNIV {} (binit (bss blank)) {} (binit (bss blank)) {} \<and>
   bread 1 (binit (bss blank)) 1 7 = Returns (cold 1 blank, NBUF - 1) \<and>
   (\<exists>s2. brelse 1 (NBUF - 1) (cold 1 blank) = Inr s2 \<and> lock (buf s2 ! (NBUF - 1)) = None \<and>
      (\<exists>s3. bread 2 s2 1 7 = Returns (s3, NBUF - 1) \<and> valid (buf s3 ! (NBUF - 1)) \<noteq> 0 \<and>
            vlog s3 = [(False, 1, 7)] \<and> data (buf s3 ! (NBUF - 1)) = blank (1, 7) \<and>
            data (buf s3 ! (NBUF - 1)) = vdisk s3 (1, 7)) \<and>
      trace UNIV {NBUF - 1} s2 {NBUF - 1} (s2\<lparr>ticks := ticks s2 + 1\<rparr>) {NBUF - 1} \<and>
      lock (buf (s2\<lparr>ticks := ticks s2 + 1\<rparr>) ! (NBUF - 1)) = None \<and>
      (\<exists>t'. bread 2 (s2\<lparr>ticks := ticks s2 + 1\<rparr>) 1 7 = Returns (t', NBUF - 1) \<and>
            valid (buf t' ! (NBUF - 1)) \<noteq> 0 \<and> vlog t' = vlog s2 \<and>
            data (buf t' ! (NBUF - 1)) = vdisk t' (1, 7)))"
proof -
  have a: "trace UNIV {} (binit (bss blank)) {} (binit (bss blank)) {}" by (rule t_start)
  have c: "bread 1 (binit (bss blank)) 1 7 = Returns (cold 1 blank, NBUF - 1)" by (rule bread_cold)
  have d: "vlog (cold 1 blank) = [(False, 1, 7)]"
    "data (buf (cold 1 blank) ! (NBUF - 1)) = blank (1, 7)"
    by (simp_all add: cold_def NBUF_def)
  from bread_warm_hit[OF a c, of 2] obtain s2 where s2:
    "brelse 1 (NBUF - 1) (cold 1 blank) = Inr s2" "lock (buf s2 ! (NBUF - 1)) = None"
    "\<exists>s3. bread 2 s2 1 7 = Returns (s3, NBUF - 1) \<and> valid (buf s3 ! (NBUF - 1)) \<noteq> 0 \<and>
                 vlog s3 = vlog (cold 1 blank) \<and>
                 data (buf s3 ! (NBUF - 1)) = data (buf (cold 1 blank) ! (NBUF - 1)) \<and>
                 (NBUF - 1 \<in> (UNIV :: nat set) \<longrightarrow> data (buf s3 ! (NBUF - 1)) = vdisk s3 (1, 7))"
    "\<forall>t H'. trace UNIV {NBUF - 1} s2 (insert (NBUF - 1) {}) t H' \<and> lock (buf t ! (NBUF - 1)) = None \<longrightarrow>
              (\<exists>t'. bread 2 t 1 7 = Returns (t', NBUF - 1) \<and> valid (buf t' ! (NBUF - 1)) \<noteq> 0 \<and>
                    vlog t' = vlog t \<and> data (buf t' ! (NBUF - 1)) = data (buf t ! (NBUF - 1)) \<and>
                    (NBUF - 1 \<in> (UNIV :: nat set) \<longrightarrow> data (buf t' ! (NBUF - 1)) = vdisk t' (1, 7)))"
    by blast
  let ?t = "s2\<lparr>ticks := ticks s2 + 1\<rparr>"
  have "trace UNIV {NBUF - 1} s2 {NBUF - 1} s2 {NBUF - 1}" by (rule t_start)
  then have t: "trace UNIV {NBUF - 1} s2 {NBUF - 1} ?t {NBUF - 1}" by (rule t_ticks)
  have l: "lock (buf ?t ! (NBUF - 1)) = None" using s2(2) by simp
  from s2(4)[THEN spec, THEN spec, THEN mp, OF conjI[OF t l]]
  have "\<exists>t'. bread 2 ?t 1 7 = Returns (t', NBUF - 1) \<and> valid (buf t' ! (NBUF - 1)) \<noteq> 0 \<and>
                    vlog t' = vlog ?t \<and> data (buf t' ! (NBUF - 1)) = data (buf ?t ! (NBUF - 1)) \<and>
                    (NBUF - 1 \<in> (UNIV :: nat set) \<longrightarrow> data (buf t' ! (NBUF - 1)) = vdisk t' (1, 7))" .
  then have B: "\<exists>t'. bread 2 ?t 1 7 = Returns (t', NBUF - 1) \<and>
            valid (buf t' ! (NBUF - 1)) \<noteq> 0 \<and> vlog t' = vlog s2 \<and>
            data (buf t' ! (NBUF - 1)) = vdisk t' (1, 7)"
    by auto
  from s2(3) d have A: "\<exists>s3. bread 2 s2 1 7 = Returns (s3, NBUF - 1) \<and> valid (buf s3 ! (NBUF - 1)) \<noteq> 0 \<and>
            vlog s3 = [(False, 1, 7)] \<and> data (buf s3 ! (NBUF - 1)) = blank (1, 7) \<and>
            data (buf s3 ! (NBUF - 1)) = vdisk s3 (1, 7)"
    by auto
  show ?thesis using a c s2(1,2) A t l B by blast
qed

lemma brelse_dirty: "brelse p (NBUF - 1) (poke (NBUF - 1) scribble (cold p blank)) = Inr dirty"
  by (simp add: brelse_def holdingsleep_def releasesleep_def refcnt_dec_def poke_def cold_def
      dirty_def NBUF_def)

lemma bread_dirty: "bread p dirty 1 7 = Returns (poke (NBUF - 1) scribble (cold p blank), NBUF - 1)"
  by (simp add: bread_def bget_def hash_1_7 acquiresleep_def refcnt_inc_def bread_fill_def
      dirty_def poke_def cold_def NBUF_def NBUFMAP_BUCKET_def)

text \<open>
  Counterexample to C3 as stated: process 1 reads block 7 of device 1 from the blank
  disk, stores \<open>scribble\<close> into the buffer and releases it without \<open>bwrite\<close>. Then
  \<open>bread(1, 7)\<close>, \<open>brelse\<close> and \<open>bread(1, 7)\<close> again return the same valid buffer without
  any disk request, and its data are \<open>scribble\<close>, while the disk still holds zeros for the
  block and no \<open>bwrite\<close> ever ran.
\<close>

theorem bread_dirty_counterexample:
  "bread 1 (binit (bss blank)) 1 7 = Returns (cold 1 blank, NBUF - 1) \<and>
   holdingsleep 1 (NBUF - 1) (cold 1 blank) \<and>
   brelse 1 (NBUF - 1) (poke (NBUF - 1) scribble (cold 1 blank)) = Inr dirty \<and>
   trace {} {} (binit (bss blank)) {} dirty {NBUF - 1} \<and>
   bread 2 dirty 1 7 = Returns (poke (NBUF - 1) scribble (cold 2 blank), NBUF - 1) \<and>
   brelse 2 (NBUF - 1) (poke (NBUF - 1) scribble (cold 2 blank)) = Inr dirty \<and>
   bread 3 dirty 1 7 = Returns (poke (NBUF - 1) scribble (cold 3 blank), NBUF - 1) \<and>
   valid (buf (poke (NBUF - 1) scribble (cold 3 blank)) ! (NBUF - 1)) = 1 \<and>
   vlog (poke (NBUF - 1) scribble (cold 3 blank)) = [(False, 1, 7)] \<and>
   data (buf (poke (NBUF - 1) scribble (cold 3 blank)) ! (NBUF - 1)) = scribble \<and>
   vdisk (poke (NBUF - 1) scribble (cold 3 blank)) (1, 7) = replicate BSIZE 0 \<and>
   scribble \<noteq> replicate BSIZE 0"
proof -
  have a: "bread 1 (binit (bss blank)) 1 7 = Returns (cold 1 blank, NBUF - 1)" by (rule bread_cold)
  have h: "holdingsleep 1 (NBUF - 1) (cold 1 blank)"
    by (simp add: holdingsleep_def cold_def NBUF_def)
  have "trace {} {} (binit (bss blank)) {} (binit (bss blank)) {}" by (rule t_start)
  moreover have "outcome_state (bread 1 (binit (bss blank)) 1 7) = Some (cold 1 blank)"
    "outcome_buf (bread 1 (binit (bss blank)) 1 7) = Some (NBUF - 1)"
    unfolding a by simp_all
  ultimately have "trace {} {} (binit (bss blank)) {} (cold 1 blank) (insert (NBUF - 1) {})"
    by (rule t_bread) simp
  then have "trace {} {} (binit (bss blank)) {} (poke (NBUF - 1) scribble (cold 1 blank)) {NBUF - 1}"
    by (rule t_poke[OF _ _ _ h]) simp_all
  then have t: "trace {} {} (binit (bss blank)) {} dirty {NBUF - 1}"
    by (rule t_brelse[OF _ _ brelse_dirty]) simp
  have e: "valid (buf (poke (NBUF - 1) scribble (cold 3 blank)) ! (NBUF - 1)) = 1"
    "vlog (poke (NBUF - 1) scribble (cold 3 blank)) = [(False, 1, 7)]"
    "data (buf (poke (NBUF - 1) scribble (cold 3 blank)) ! (NBUF - 1)) = scribble"
    "vdisk (poke (NBUF - 1) scribble (cold 3 blank)) (1, 7) = replicate BSIZE 0"
    by (simp_all add: poke_def cold_def blank_def NBUF_def)
  have n: "scribble \<noteq> replicate BSIZE 0" by (simp add: scribble_def BSIZE_def)
  show ?thesis by (intro conjI a h t e n brelse_dirty bread_dirty)
qed

section \<open>Properties of the buffer cache: unpin at zero\<close>

lemma hash_0_0: "BUFMAP_HASH 0 0 = 0"
  by (simp add: BUFMAP_HASH_def NBUFMAP_BUCKET_def)

lemma bread_00: "bread 1 (binit (bss blank)) 0 0 = Returns (held00, NBUF - 1)"
  by (simp add: bread_def bget_def hash_0_0 binit_bss upt_NBUF acquiresleep_def refcnt_inc_def
      bread_fill_def virtio_disk_rw_def held00_def)
     (simp add: NBUF_def)

lemma brelse_00: "brelse 1 (NBUF - 1) held00 = Inr idle00"
  by (simp add: brelse_def holdingsleep_def releasesleep_def refcnt_dec_def held00_def idle00_def
      NBUF_def)

lemma wf_idle00: "wf_bcache idle00"
  by (auto simp: wf_bcache_def idle00_def NBUFMAP_BUCKET_def nth_Cons split: nat.splits)

lemma bget_fresh_chain:
  assumes bm: "bufmap s = rev [0..<NBUF] # replicate (NBUFMAP_BUCKET - 1) []"
    and idle: "\<forall>b<NBUF. refcnt (buf s ! b) = 0 \<and> lastuse (buf s ! b) = 0"
    and miss: "bscan (buf s) (bufmap s ! unat (BUFMAP_HASH d n)) d n = None"
  shows "outcome_buf (bget p s d n) = Some (NBUF - 1)"
proof -
  have len: "length (bufmap s) = NBUFMAP_BUCKET" by (simp add: bm NBUFMAP_BUCKET_def)
  have cc: "concat (bufmap s) = (NBUF - 1) # rev [0..<NBUF - 1]"
    by (simp add: bm upt_NBUF)
  have "victim s = Some (NBUF - 1)"
    unfolding victim_def cc using idle by (simp add: pick_keep NBUF_def)
  then show ?thesis using bget_miss_victim[OF len miss, of p] by simp
qed

text \<open>
  C10 (as amended). \<open>bunpin\<close> has no failure branch. On a buffer whose \<open>refcnt\<close> is 0 it
  wraps the count to \<open>2^32 - 1\<close> and leaves the chains alone; in the state it leaves, the
  victim scan of \<open>bget\<close> does not select that buffer, so a \<open>bget\<close> that misses there does
  not hand it out. (This lasts while the count stays non-zero: one more increment wraps
  it back to 0.)
\<close>

theorem bunpin_wraps:
  assumes "wf_bcache s" and "b < length (buf s)" and "refcnt (buf s ! b) = 0"
  shows "unat (refcnt (buf (bunpin b s) ! b)) = 2 ^ 32 - 1 \<and>
         bufmap (bunpin b s) = bufmap s \<and>
         (\<forall>l h. scan_buckets (buf (bunpin b s)) (bufmap (bunpin b s)) 0 (None, - 1) = (l, h)
                \<longrightarrow> cand (bufmap (bunpin b s)) l \<noteq> Some b) \<and>
         (\<forall>p d n. bscan (buf (bunpin b s)) (bufmap (bunpin b s) ! unat (BUFMAP_HASH d n)) d n = None
                \<longrightarrow> outcome_buf (bget p (bunpin b s) d n) \<noteq> Some b)"
proof -
  let ?t = "bunpin b s"
  have r: "refcnt (buf ?t ! b) = - 1" and bm: "bufmap ?t = bufmap s"
    using assms(2,3) by (simp_all add: bunpin_def refcnt_dec_def)
  have len: "length (bufmap ?t) = NBUFMAP_BUCKET" using assms(1) bm by (simp add: wf_bcache_def)
  have nv: "victim ?t \<noteq> Some b" using victim_idle[of ?t b] r by auto
  have 1: "unat (refcnt (buf ?t ! b)) = 2 ^ 32 - 1"
    by (simp add: r unsigned_minus_1_eq_mask mask_eq_exp_minus_1)
  have 2: "\<forall>l h. scan_buckets (buf ?t) (bufmap ?t) 0 (None, - 1) = (l, h)
                \<longrightarrow> cand (bufmap ?t) l \<noteq> Some b"
    using scan_all(1)[OF len] nv by auto
  have 3: "\<forall>p d n. bscan (buf ?t) (bufmap ?t ! unat (BUFMAP_HASH d n)) d n = None
                \<longrightarrow> outcome_buf (bget p ?t d n) \<noteq> Some b"
    using bget_miss_victim[OF len] nv by auto
  show ?thesis using 1 2 3 bm by blast
qed

text \<open>
  Witness for C10: block 0 of device 0 has been read and released, so its buffer, the
  head of bucket 0, is idle; \<open>bunpin\<close> wraps its count, and a \<open>bget\<close> that misses then
  passes it over.
\<close>

theorem bunpin_wraps_witness:
  "wf_bcache idle00 \<and> NBUF - 1 < length (buf idle00) \<and>
   refcnt (buf idle00 ! (NBUF - 1)) = 0 \<and>
   bscan (buf (bunpin (NBUF - 1) idle00))
         (bufmap (bunpin (NBUF - 1) idle00) ! unat (BUFMAP_HASH 1 7)) 1 7 = None \<and>
   unat (refcnt (buf (bunpin (NBUF - 1) idle00) ! (NBUF - 1))) = 2 ^ 32 - 1 \<and>
   outcome_buf (bget 0 (bunpin (NBUF - 1) idle00) 1 7) \<noteq> Some (NBUF - 1)"
proof -
  have a: "wf_bcache idle00" by (rule wf_idle00)
  have b: "NBUF - 1 < length (buf idle00)" by (simp add: idle00_def NBUF_def)
  have c: "refcnt (buf idle00 ! (NBUF - 1)) = 0" by (simp add: idle00_def NBUF_def)
  have d: "bscan (buf (bunpin (NBUF - 1) idle00))
         (bufmap (bunpin (NBUF - 1) idle00) ! unat (BUFMAP_HASH 1 7)) 1 7 = None"
    by (simp add: bunpin_def refcnt_dec_def idle00_def hash_1_7 NBUFMAP_BUCKET_def)
  show ?thesis using bunpin_wraps[OF a b c] a b c d by simp
qed

text \<open>
  C10 (as stated) fails at "never": \<open>bread(0, 0)\<close> hands out the last pool buffer and
  \<open>brelse\<close> makes it idle; \<open>bunpin\<close> wraps its count to \<open>2^32 - 1\<close>, one \<open>bpin\<close> wraps it back
  to 0, and the next \<open>bget\<close> that misses selects exactly that buffer as its victim.
\<close>

theorem bunpin_never_counterexample:
  "bread 1 (binit (bss blank)) 0 0 = Returns (held00, NBUF - 1) \<and>
   brelse 1 (NBUF - 1) held00 = Inr idle00 \<and>
   refcnt (buf idle00 ! (NBUF - 1)) = 0 \<and>
   refcnt (buf (bunpin (NBUF - 1) idle00) ! (NBUF - 1)) = - 1 \<and>
   bscan (buf (bpin (NBUF - 1) (bunpin (NBUF - 1) idle00)))
     (bufmap (bpin (NBUF - 1) (bunpin (NBUF - 1) idle00)) ! unat (BUFMAP_HASH 1 7)) 1 7 = None \<and>
   outcome_buf (bget 0 (bpin (NBUF - 1) (bunpin (NBUF - 1) idle00)) 1 7) = Some (NBUF - 1)"
proof -
  have e: "bpin (NBUF - 1) (bunpin (NBUF - 1) idle00) = idle00"
    by (simp add: bpin_def bunpin_def refcnt_inc_def refcnt_dec_def idle00_def NBUF_def)
  have m: "bscan (buf idle00) (bufmap idle00 ! unat (BUFMAP_HASH 1 7)) 1 7 = None"
    by (simp add: idle00_def hash_1_7 NBUFMAP_BUCKET_def)
  have i: "\<forall>b<NBUF. refcnt (buf idle00 ! b) = 0 \<and> lastuse (buf idle00 ! b) = 0"
    by (simp add: idle00_def upd_nth_cases)
  have g: "outcome_buf (bget 0 idle00 1 7) = Some (NBUF - 1)"
    by (rule bget_fresh_chain[OF _ i m]) (simp add: idle00_def)
  have r: "refcnt (buf idle00 ! (NBUF - 1)) = 0"
    "refcnt (buf (bunpin (NBUF - 1) idle00) ! (NBUF - 1)) = - 1"
    by (simp_all add: bunpin_def refcnt_dec_def idle00_def NBUF_def)
  show ?thesis unfolding e using bread_00 brelse_00 m g r by simp
qed

end
